theory Spec2Isabelle
  imports Main "HOL-Library.Word"
begin

section \<open>Memory, faults and the two-byte length trailer\<close>

text \<open>
  The model keeps the names of the source; member names lose their trailing underscore
  (\<open>head_\<close> is \<open>head\<close>), and \<open>size\<close>, \<open>empty\<close> and \<open>full\<close> of the ring buffer
  are \<open>rb_size\<close>, \<open>rb_empty\<close> and \<open>rb_full\<close>.

  The logger moves records through two flat \<open>char\<close> arrays: the ring buffer's
  \<open>aligned_buffer\<close> and the thread-local \<open>batch_\<close>. Both are modelled as a function
  from byte offsets to bytes together with the size of the array. Every \<open>memcpy\<close> and
  every \<open>reinterpret_cast<uint16_t*>\<close> access of the source is a function that returns
  a fault when the access leaves the array it is applied to (undefined behaviour in
  C++), and the updated memory otherwise.
\<close>

datatype fault = ReadOverrun | WriteOverrun | NullDeref

type_synonym memory = "nat \<Rightarrow> char"

text \<open>A freshly value-initialised (\<open>make_unique<char[]>\<close>) or zero-initialised
  (\<open>thread_local static\<close>) array.\<close>

definition zero_memory :: memory where
  "zero_memory = (\<lambda>_. CHR 0x00)"

text \<open>A \<open>const void*\<close> argument: the bytes found from the pointer on (by offset from
  the pointer) and how many of them belong to the object pointed into.\<close>

type_synonym source = "memory \<times> nat"

text \<open>\<open>buf.data()\<close> of a character buffer holding \<open>s\<close>.\<close>

definition string_source :: "string \<Rightarrow> source" where
  "string_source s = (\<lambda>k. s ! k, length s)"

text \<open>\<open>memcpy(dst + off, src, len)\<close> where \<open>dst\<close> is an array of \<open>bound\<close> bytes.\<close>

definition memcpy :: "memory \<Rightarrow> nat \<Rightarrow> nat \<Rightarrow> source \<Rightarrow> nat \<Rightarrow> fault + memory" where
  "memcpy mem bound off src len =
     (if snd src < len then Inl ReadOverrun
      else if bound < off + len then Inl WriteOverrun
      else Inr (\<lambda>a. if off \<le> a \<and> a < off + len then fst src (a - off) else mem a))"

text \<open>\<open>*reinterpret_cast<uint16_t*>(slot + entry_size - 2) = v\<close> on a little-endian
  machine; \<open>v\<close> is the value after \<open>static_cast<uint16_t>\<close>, that is, already reduced
  modulo \<open>2 ^ 16\<close> by the caller. The two bytes lie at \<open>slot + entry_size - 2\<close> and
  \<open>slot + entry_size - 1\<close>; they are outside the array when \<open>slot + entry_size < 2\<close>
  or \<open>slot + entry_size > bound\<close>.\<close>

definition write_trailer :: "memory \<Rightarrow> nat \<Rightarrow> nat \<Rightarrow> nat \<Rightarrow> nat \<Rightarrow> fault + memory" where
  "write_trailer mem bound slot es v =
     (if slot + es < 2 \<or> bound < slot + es then Inl WriteOverrun
      else Inr (mem(slot + es - 2 := char_of (v mod 256),
                    slot + es - 1 := char_of (v div 256 mod 256))))"

text \<open>\<open>*reinterpret_cast<const uint16_t*>(slot + entry_size - 2)\<close>.\<close>

definition read_trailer :: "memory \<Rightarrow> nat \<Rightarrow> nat \<Rightarrow> nat \<Rightarrow> fault + nat" where
  "read_trailer mem bound slot es =
     (if slot + es < 2 \<or> bound < slot + es then Inl ReadOverrun
      else Inr (of_char (mem (slot + es - 2))
                + 256 * of_char (mem (slot + es - 1))))"

section \<open>LockFreeRingBuffer\<close>

text \<open>
  \<open>head\<close> and \<open>tail\<close> are \<open>std::atomic<size_t>\<close>: 64-bit words whose arithmetic wraps.
  \<open>entry_size\<close> and \<open>max_entries\<close> are the constructor's arguments, and \<open>buffer_size\<close>
  is their product as the constructor computes it (line 36): in \<open>size_t\<close>, so modulo
  \<open>2 ^ 64\<close>. The array of the ring buffer is the \<open>buffer_size\<close> bytes from the aligned
  address on; the padding behind them is not counted as part of it.
\<close>

record LockFreeRingBuffer =
  head :: "64 word"
  tail :: "64 word"
  aligned_buffer :: memory
  entry_size :: nat
  max_entries :: nat

definition buffer_size :: "LockFreeRingBuffer \<Rightarrow> nat" where
  "buffer_size q = (entry_size q * max_entries q) mod 2 ^ 64"

text \<open>The object that the constructor leaves when it returns: both counters zero and
  the array zeroed.\<close>

definition new_ring :: "nat \<Rightarrow> nat \<Rightarrow> LockFreeRingBuffer" where
  "new_ring es n =
     \<lparr>head = 0, tail = 0, aligned_buffer = zero_memory,
      entry_size = es, max_entries = n\<rparr>"

text \<open>The constructor (lines 34-45). It allocates \<open>buffer_size + 64\<close> bytes, a sum in
  \<open>size_t\<close> again, and asks \<open>std::align\<close> for \<open>buffer_size\<close> bytes at a multiple of 64
  inside them. With a sum that does not wrap, the at most 63 bytes of padding always
  leave room; with a sum that wraps, fewer than 64 bytes are allocated for a
  \<open>buffer_size\<close> of more than that, \<open>std::align\<close> returns null and the constructor
  throws.\<close>

datatype ctor_error = AlignFailed

definition construct_ring :: "nat \<Rightarrow> nat \<Rightarrow> ctor_error + LockFreeRingBuffer" where
  "construct_ring es n =
     (let bs = (es * n) mod 2 ^ 64;
          allocation_size = (bs + 64) mod 2 ^ 64
      in if allocation_size < bs then Inl AlignFailed else Inr (new_ring es n))"

text \<open>The offset of slot \<open>i\<close> in the array: \<open>(i % max_entries) * entry_size\<close>, a product
  in \<open>size_t\<close>.\<close>

definition slot_of :: "LockFreeRingBuffer \<Rightarrow> 64 word \<Rightarrow> nat" where
  "slot_of q i = ((unat i mod max_entries q) * entry_size q) mod 2 ^ 64"

text \<open>The reservation loop of \<open>try_enqueue\<close> (lines 48-59): with no other producer
  running between the load of \<open>tail\<close> and the compare-exchange, the exchange succeeds
  on the first attempt. \<open>None\<close> is the \<open>return false\<close> of a full queue; otherwise the
  reserved index \<open>current_tail\<close> and the queue with \<open>tail\<close> advanced.\<close>

definition reserve :: "LockFreeRingBuffer \<Rightarrow> (64 word \<times> LockFreeRingBuffer) option" where
  "reserve q =
     (let current_tail = tail q in
      if max_entries q \<le> unat (current_tail - head q) then None
      else Some (current_tail, q\<lparr>tail := current_tail + 1\<rparr>))"

text \<open>The slot write of \<open>try_enqueue\<close> (lines 61-63): the payload copy, then the
  trailer store.\<close>

definition publish :: "LockFreeRingBuffer \<Rightarrow> 64 word \<Rightarrow> source \<Rightarrow> nat \<Rightarrow> fault + LockFreeRingBuffer" where
  "publish q current_tail data len =
     (let slot = slot_of q current_tail in
      case memcpy (aligned_buffer q) (buffer_size q) slot data len of
        Inl f \<Rightarrow> Inl f
      | Inr m \<Rightarrow>
         (case write_trailer m (buffer_size q) slot (entry_size q) (len mod 65536) of
            Inl f \<Rightarrow> Inl f
          | Inr m' \<Rightarrow> Inr (q\<lparr>aligned_buffer := m'\<rparr>)))"

definition try_enqueue :: "LockFreeRingBuffer \<Rightarrow> source \<Rightarrow> nat \<Rightarrow> fault + (bool \<times> LockFreeRingBuffer)" where
  "try_enqueue q data len =
     (case reserve q of
        None \<Rightarrow> Inr (False, q)
      | Some (current_tail, q1) \<Rightarrow>
         (case publish q1 current_tail data len of
            Inl f \<Rightarrow> Inl f
          | Inr q2 \<Rightarrow> Inr (True, q2)))"

text \<open>The wait of \<open>try_dequeue\<close> (lines 75-77): re-read the trailer until it is
  nonzero. With no producer writing in between, every read sees the same memory, so a
  zero trailer is read for ever: the loop does not return, which is the value \<open>None\<close>.\<close>

partial_function (option) await_trailer :: "LockFreeRingBuffer \<Rightarrow> nat \<Rightarrow> (fault + nat) option" where
  "await_trailer q slot =
     (case read_trailer (aligned_buffer q) (buffer_size q) slot (entry_size q) of
        Inl f \<Rightarrow> Some (Inl f)
      | Inr slot_len \<Rightarrow> if slot_len = 0 then await_trailer q slot else Some (Inr slot_len))"

declare await_trailer.simps [code]

text \<open>\<open>try_dequeue(data, len)\<close> where \<open>data\<close> points to a buffer of \<open>cap\<close> bytes. The
  result holds the returned flag, the \<open>len\<close> bytes copied to \<open>data\<close> (empty when nothing
  was copied) and the queue.\<close>

definition try_dequeue :: "LockFreeRingBuffer \<Rightarrow> nat \<Rightarrow> (fault + (bool \<times> string \<times> LockFreeRingBuffer)) option" where
  "try_dequeue q cap =
     (let current_head = head q in
      if tail q \<le> current_head then Some (Inr (False, [], q))
      else
        let slot = slot_of q current_head in
        case await_trailer q slot of
          None \<Rightarrow> None
        | Some (Inl f) \<Rightarrow> Some (Inl f)
        | Some (Inr len) \<Rightarrow>
            if buffer_size q < slot + len then Some (Inl ReadOverrun)
            else if cap < len then Some (Inl WriteOverrun)
            else
              (case write_trailer (aligned_buffer q) (buffer_size q) slot (entry_size q) 0 of
                 Inl f \<Rightarrow> Some (Inl f)
               | Inr m \<Rightarrow>
                  Some (Inr (True, map (aligned_buffer q) [slot ..< slot + len],
                             q\<lparr>aligned_buffer := m, head := current_head + 1\<rparr>))))"

definition rb_size :: "LockFreeRingBuffer \<Rightarrow> 64 word" where
  "rb_size q = tail q - head q"

definition rb_empty :: "LockFreeRingBuffer \<Rightarrow> bool" where
  "rb_empty q = (rb_size q = 0)"


section \<open>ThreadLocalBatch\<close>

text \<open>\<open>BATCH_SIZE = 32\<close> slots of \<open>ENTRY_SIZE = 256\<close> bytes in one array \<open>batch_\<close> of
  8192 bytes, and the number \<open>count_\<close> of slots in use.\<close>

record ThreadLocalBatch =
  batch_arr :: memory
  count :: nat

definition BATCH_SIZE :: nat where
  "BATCH_SIZE = 32"

definition ENTRY_SIZE :: nat where
  "ENTRY_SIZE = 256"

definition new_batch :: ThreadLocalBatch where
  "new_batch = \<lparr>batch_arr = zero_memory, count = 0\<rparr>"

definition try_add :: "ThreadLocalBatch \<Rightarrow> source \<Rightarrow> nat \<Rightarrow> fault + (bool \<times> ThreadLocalBatch)" where
  "try_add b data len =
     (if BATCH_SIZE \<le> count b then Inr (False, b)
      else
        let slot = count b * ENTRY_SIZE in
        case memcpy (batch_arr b) (ENTRY_SIZE * BATCH_SIZE) slot data (min len (ENTRY_SIZE - 2)) of
          Inl f \<Rightarrow> Inl f
        | Inr m \<Rightarrow>
           (case write_trailer m (ENTRY_SIZE * BATCH_SIZE) slot ENTRY_SIZE (len mod 65536) of
              Inl f \<Rightarrow> Inl f
            | Inr m' \<Rightarrow> Inr (True, \<lparr>batch_arr = m', count = count b + 1\<rparr>)))"

text \<open>\<open>operator[]\<close>: a pointer to slot \<open>idx\<close>, from which the rest of the array is
  readable.\<close>

definition batch_at :: "ThreadLocalBatch \<Rightarrow> nat \<Rightarrow> source" where
  "batch_at b idx =
     (\<lambda>k. batch_arr b (idx * ENTRY_SIZE + k), ENTRY_SIZE * BATCH_SIZE - idx * ENTRY_SIZE)"

definition clear :: "ThreadLocalBatch \<Rightarrow> ThreadLocalBatch" where
  "clear b = b\<lparr>count := 0\<rparr>"

section \<open>Sink and log levels\<close>

text \<open>The \<open>Sink\<close> template parameter is instantiated with a sink that records what it
  is given: the byte runs passed to \<open>write\<close>, in order, and the number of calls of
  \<open>flush\<close>.\<close>

record Sink =
  written :: "string list"
  flushed :: nat

definition sink_write :: "Sink \<Rightarrow> string \<Rightarrow> Sink" where
  "sink_write sk bytes = sk\<lparr>written := written sk @ [bytes]\<rparr>"

definition sink_flush :: "Sink \<Rightarrow> Sink" where
  "sink_flush sk = sk\<lparr>flushed := flushed sk + 1\<rparr>"

definition new_sink :: Sink where
  "new_sink = \<lparr>written = [], flushed = 0\<rparr>"

datatype LogLevel = TRACE | DEBUG | INFO | WARN | ERROR | CRITICAL

text \<open>\<open>static_cast<int>(L)\<close>.\<close>

fun level_int :: "LogLevel \<Rightarrow> nat" where
  "level_int TRACE = 0"
| "level_int DEBUG = 1"
| "level_int INFO = 2"
| "level_int WARN = 3"
| "level_int ERROR = 4"
| "level_int CRITICAL = 5"

section \<open>Logger\<close>

text \<open>
  The state of one logger together with the thread-local \<open>format_buf_\<close> and \<open>batch_\<close>
  of the one thread that logs to it and destroys it. \<open>worker\<close> is the
  \<open>unique_ptr<thread>\<close>: \<open>None\<close> when null, otherwise whether the thread it owns still
  runs or has been joined. \<open>events\<close> records, in order, the scheduler calls of the
  logging thread (\<open>yield\<close>, \<open>sleep_for\<close>) and the notifications of \<open>cv_\<close>.
\<close>

datatype thread_state = Started | Joined

datatype event = Yield | Sleep_ns nat | Notify_one | Notify_all

record Logger =
  sink :: Sink
  queue :: "LockFreeRingBuffer option"
  worker :: "thread_state option"
  running :: bool
  format_buf :: string
  batch :: ThreadLocalBatch
  events :: "event list"

definition BACKOFF_MAX :: nat where
  "BACKOFF_MAX = 4"

definition new_Logger :: "Sink \<Rightarrow> bool \<Rightarrow> Logger" where
  "new_Logger sk async =
     \<lparr>sink = sk,
      queue = (if async then Some (new_ring 256 65536) else None),
      worker = (if async then Some Started else None),
      running = True, format_buf = [], batch = new_batch, events = []\<rparr>"

subsection \<open>The worker thread\<close>

text \<open>One dequeue attempt of \<open>worker_loop\<close> into \<open>char entry[256]\<close>, with the write to
  the sink on success (lines 137-138 and 144-145). The flag tells whether a record was
  dequeued. The \<open>wait_for\<close> of the other branch changes nothing.\<close>

definition worker_poll :: "Logger \<Rightarrow> (fault + (bool \<times> Logger)) option" where
  "worker_poll s =
     (case queue s of
        None \<Rightarrow> Some (Inl NullDeref)
      | Some q \<Rightarrow>
         (case try_dequeue q 256 of
            None \<Rightarrow> None
          | Some (Inl f) \<Rightarrow> Some (Inl f)
          | Some (Inr (ok, entry, q')) \<Rightarrow>
              if ok then Some (Inr (True, s\<lparr>queue := Some q', sink := sink_write (sink s) entry\<rparr>))
              else Some (Inr (False, s))))"

text \<open>The final drain (lines 144-146).\<close>

partial_function (option) drain :: "Logger \<Rightarrow> (fault + Logger) option" where
  "drain s =
     (case worker_poll s of
        None \<Rightarrow> None
      | Some (Inl f) \<Rightarrow> Some (Inl f)
      | Some (Inr (ok, s')) \<Rightarrow> if ok then drain s' else Some (Inr s'))"

declare drain.simps [code]

text \<open>\<open>worker_->join()\<close> once \<open>running_\<close> is false: the worker leaves its main loop,
  whose iteration does what an iteration of the final drain does, drains, and ends.\<close>

definition join :: "Logger \<Rightarrow> (fault + Logger) option" where
  "join s =
     (case drain s of
        None \<Rightarrow> None
      | Some (Inl f) \<Rightarrow> Some (Inl f)
      | Some (Inr s') \<Rightarrow> Some (Inr (s'\<lparr>worker := Some Joined\<rparr>)))"

text \<open>
  While the logging thread waits, the worker thread runs beside it. Its progress is
  given from outside as a schedule \<open>sched\<close>: one number per wait of the logging
  thread, the number of iterations of the worker's main loop (lines 136-143) that
  happen during that wait. A worker that waits for a trailer to become nonzero makes
  no progress; a worker that has ended, or a logger without one, does nothing.
\<close>

fun worker_steps :: "nat \<Rightarrow> Logger \<Rightarrow> fault + Logger" where
  "worker_steps 0 s = Inr s"
| "worker_steps (Suc k) s =
     (if worker s = Some Started \<and> running s then
        (case worker_poll s of
           None \<Rightarrow> Inr s
         | Some (Inl f) \<Rightarrow> Inl f
         | Some (Inr (ok, s')) \<Rightarrow> worker_steps k s')
      else Inr s)"

definition meanwhile :: "nat list \<Rightarrow> Logger \<Rightarrow> fault + (nat list \<times> Logger)" where
  "meanwhile sched s =
     (case sched of
        [] \<Rightarrow> Inr ([], s)
      | k # rest \<Rightarrow> (case worker_steps k s of Inl f \<Rightarrow> Inl f | Inr s' \<Rightarrow> Inr (rest, s')))"

subsection \<open>flush_batch\<close>

text \<open>The body of the retry loop (lines 155-162): the wait after a failed
  \<open>try_enqueue\<close>, returning the new value of \<open>backoff\<close>.\<close>

definition backoff_wait :: "nat \<Rightarrow> Logger \<Rightarrow> nat \<times> Logger" where
  "backoff_wait backoff s =
     (if backoff < BACKOFF_MAX then
        (backoff + 1, s\<lparr>events := events s @ replicate (2 ^ backoff) Yield\<rparr>)
      else (backoff, s\<lparr>events := events s @ [Sleep_ns 100]\<rparr>))"

text \<open>The retry loop (lines 154-163) for one record.\<close>

partial_function (option) enqueue_retry ::
  "nat list \<Rightarrow> nat \<Rightarrow> source \<Rightarrow> nat \<Rightarrow> Logger \<Rightarrow> (fault + (nat list \<times> Logger)) option" where
  "enqueue_retry sched backoff data len s =
     (case queue s of
        None \<Rightarrow> Some (Inl NullDeref)
      | Some q \<Rightarrow>
         (case try_enqueue q data len of
            Inl f \<Rightarrow> Some (Inl f)
          | Inr (ok, q') \<Rightarrow>
              if ok then Some (Inr (sched, s\<lparr>queue := Some q'\<rparr>))
              else
                (case meanwhile sched (snd (backoff_wait backoff s)) of
                   Inl f \<Rightarrow> Some (Inl f)
                 | Inr (sched', s') \<Rightarrow>
                     enqueue_retry sched' (fst (backoff_wait backoff s)) data len s')))"

declare enqueue_retry.simps [code]

text \<open>The \<open>for\<close> loop (lines 150-164) from index \<open>i\<close> on.\<close>

partial_function (option) flush_from ::
  "nat list \<Rightarrow> nat \<Rightarrow> Logger \<Rightarrow> (fault + (nat list \<times> Logger)) option" where
  "flush_from sched i s =
     (if i < count (batch s) then
        (case read_trailer (batch_arr (batch s)) (ENTRY_SIZE * BATCH_SIZE) (i * ENTRY_SIZE) 256 of
           Inl f \<Rightarrow> Some (Inl f)
         | Inr len \<Rightarrow>
            (case enqueue_retry sched 0 (batch_at (batch s) i) len s of
               None \<Rightarrow> None
             | Some (Inl f) \<Rightarrow> Some (Inl f)
             | Some (Inr (sched', s')) \<Rightarrow> flush_from sched' (i + 1) s'))
      else Some (Inr (sched, s)))"

declare flush_from.simps [code]

definition flush_batch :: "nat list \<Rightarrow> Logger \<Rightarrow> (fault + (nat list \<times> Logger)) option" where
  "flush_batch sched s =
     (case flush_from sched 0 s of
        None \<Rightarrow> None
      | Some (Inl f) \<Rightarrow> Some (Inl f)
      | Some (Inr (sched', s')) \<Rightarrow>
          let s1 = s'\<lparr>batch := clear (batch s')\<rparr> in
          if 0 < count (batch s1) then Some (Inr (sched', s1\<lparr>events := events s1 @ [Notify_one]\<rparr>))
          else Some (Inr (sched', s1)))"

subsection \<open>log\<close>

text \<open>\<open>fmt\<close>'s rendering of an integer argument by \<open>{}\<close>: decimal digits, most
  significant first, no padding, a minus sign before a negative value.\<close>

definition digits :: string where
  "digits = ''0123456789''"

fun dec_nat :: "nat \<Rightarrow> string" where
  "dec_nat n = (if n < 10 then [digits ! n] else dec_nat (n div 10) @ [digits ! (n mod 10)])"

definition fmt_int :: "int \<Rightarrow> string" where
  "fmt_int i = (if i < 0 then CHR ''-'' # dec_nat (nat (- i)) else dec_nat (nat i))"

text \<open>Division and remainder of C++ on \<open>long long\<close> by a positive divisor: the
  quotient is truncated towards zero.\<close>

definition cdiv :: "int \<Rightarrow> int \<Rightarrow> int" where
  "cdiv a b = (if 0 \<le> a then a div b else - ((- a) div b))"

definition cmod :: "int \<Rightarrow> int \<Rightarrow> int" where
  "cmod a b = a - cdiv a b * b"

text \<open>The number that a string of decimal digits denotes.\<close>

definition dec_value :: "string \<Rightarrow> nat" where
  "dec_value s = foldl (\<lambda>a c. 10 * a + (of_char c - 48)) 0 s"

definition levels :: string where
  "levels = ''TDIWEC''"

text \<open>Lines 194-201: the record rendered into the cleared \<open>format_buf_\<close>. \<open>ns\<close> is the
  reading of the steady clock in nanoseconds, \<open>payload\<close> what \<open>fmt\<close> makes of the
  format string and its arguments.\<close>

definition render :: "LogLevel \<Rightarrow> int \<Rightarrow> string \<Rightarrow> string" where
  "render L ns payload =
     (let buf0 = [];
          buf1 = buf0 @ fmt_int (cdiv ns 1000000000) @ ''.'' @ fmt_int (cmod ns 1000000000) @ '' '';
          buf2 = buf1 @ [levels ! level_int L] @ '' '';
          buf3 = buf2 @ payload
      in buf3 @ [CHR 0x0A])"

definition log ::
  "LogLevel \<Rightarrow> LogLevel \<Rightarrow> int \<Rightarrow> string \<Rightarrow> nat list \<Rightarrow> Logger \<Rightarrow> (fault + (nat list \<times> Logger)) option" where
  "log MinLevel L ns payload sched s =
     (if level_int MinLevel \<le> level_int L then
        let s1 = s\<lparr>format_buf := render L ns payload\<rparr>;
            buf = format_buf s1
        in
        if queue s1 \<noteq> None then
          (case try_add (batch s1) (string_source buf) (length buf) of
             Inl f \<Rightarrow> Some (Inl f)
           | Inr (ok, b) \<Rightarrow>
              if ok then Some (Inr (sched, s1\<lparr>batch := b\<rparr>))
              else
                (case flush_batch sched s1 of
                   None \<Rightarrow> None
                 | Some (Inl f) \<Rightarrow> Some (Inl f)
                 | Some (Inr (sched', s2)) \<Rightarrow>
                    (case try_add (batch s2) (string_source buf) (length buf) of
                       Inl f \<Rightarrow> Some (Inl f)
                     | Inr (ok', b') \<Rightarrow> Some (Inr (sched', s2\<lparr>batch := b'\<rparr>)))))
        else Some (Inr (sched, s1\<lparr>sink := sink_write (sink s1) buf\<rparr>))
      else Some (Inr (sched, s)))"

subsection \<open>flush and the destructor\<close>

text \<open>The wait of \<open>flush\<close> (lines 218-220).\<close>

partial_function (option) wait_empty ::
  "nat list \<Rightarrow> Logger \<Rightarrow> (fault + (nat list \<times> Logger)) option" where
  "wait_empty sched s =
     (case queue s of
        None \<Rightarrow> Some (Inl NullDeref)
      | Some q \<Rightarrow>
          if rb_empty q then Some (Inr (sched, s))
          else
            (case meanwhile sched (s\<lparr>events := events s @ [Yield]\<rparr>) of
               Inl f \<Rightarrow> Some (Inl f)
             | Inr (sched', s') \<Rightarrow> wait_empty sched' s'))"

declare wait_empty.simps [code]

definition flush :: "nat list \<Rightarrow> Logger \<Rightarrow> (fault + (nat list \<times> Logger)) option" where
  "flush sched s =
     (case (if 0 < count (batch s) then flush_batch sched s else Some (Inr (sched, s))) of
        None \<Rightarrow> None
      | Some (Inl f) \<Rightarrow> Some (Inl f)
      | Some (Inr (sched1, s1)) \<Rightarrow>
         (case (if worker s1 \<noteq> None then wait_empty sched1 s1 else Some (Inr (sched1, s1))) of
            None \<Rightarrow> None
          | Some (Inl f) \<Rightarrow> Some (Inl f)
          | Some (Inr (sched2, s2)) \<Rightarrow> Some (Inr (sched2, s2\<lparr>sink := sink_flush (sink s2)\<rparr>))))"

text \<open>\<open>~Logger\<close> (lines 181-188).\<close>

definition destroy :: "nat list \<Rightarrow> Logger \<Rightarrow> (fault + (nat list \<times> Logger)) option" where
  "destroy sched s =
     (case (if worker s \<noteq> None
            then join (s\<lparr>running := False, events := events s @ [Notify_all]\<rparr>)
            else Some (Inr s)) of
        None \<Rightarrow> None
      | Some (Inl f) \<Rightarrow> Some (Inl f)
      | Some (Inr s1) \<Rightarrow> flush sched s1)"

subsection \<open>A thread that logs several records\<close>

text \<open>Successive calls of \<open>log\<close>, each with its clock reading and payload; and the state
  of an asynchronous logger whose counters are in order after at most \<open>k\<close> records
  were pushed.\<close>

fun log_all ::
  "LogLevel \<Rightarrow> LogLevel \<Rightarrow> (int \<times> string) list \<Rightarrow> nat list \<Rightarrow> Logger \<Rightarrow> (fault + (nat list \<times> Logger)) option" where
  "log_all MinLevel L [] sched s = Some (Inr (sched, s))"
| "log_all MinLevel L ((ns, payload) # recs) sched s =
     (case log MinLevel L ns payload sched s of
        None \<Rightarrow> None
      | Some (Inl f) \<Rightarrow> Some (Inl f)
      | Some (Inr (sched', s')) \<Rightarrow> log_all MinLevel L recs sched' s')"

definition logger_inv :: "nat \<Rightarrow> Logger \<Rightarrow> bool" where
  "logger_inv k s =
     (case queue s of
        None \<Rightarrow> False
      | Some q \<Rightarrow> head q \<le> tail q \<and> unat (tail q) \<le> k \<and>
          worker s = Some Started \<and> count (batch s) \<le> BATCH_SIZE)"

section \<open>Sequences of calls on the ring buffer\<close>

text \<open>A call of \<open>try_enqueue\<close> or of \<open>try_dequeue\<close> (into a buffer of the given size),
  the queue it leaves when it returns, and the queue after a sequence of calls that all
  return.\<close>

datatype rb_call = Enqueue source nat | Dequeue nat

fun rb_step :: "LockFreeRingBuffer \<Rightarrow> rb_call \<Rightarrow> LockFreeRingBuffer option" where
  "rb_step q (Enqueue data len) =
     (case try_enqueue q data len of Inl f \<Rightarrow> None | Inr (ok, q') \<Rightarrow> Some q')"
| "rb_step q (Dequeue cap) =
     (case try_dequeue q cap of Some (Inr (ok, entry, q')) \<Rightarrow> Some q' | _ \<Rightarrow> None)"

fun rb_run :: "LockFreeRingBuffer \<Rightarrow> rb_call list \<Rightarrow> LockFreeRingBuffer option" where
  "rb_run q [] = Some q"
| "rb_run q (c # cs) = (case rb_step q c of None \<Rightarrow> None | Some q' \<Rightarrow> rb_run q' cs)"

text \<open>The counters after at most \<open>k\<close> calls on a queue of \<open>n\<close> slots.\<close>

definition ring_inv :: "nat \<Rightarrow> nat \<Rightarrow> LockFreeRingBuffer \<Rightarrow> bool" where
  "ring_inv n k q =
     (max_entries q = n \<and> head q \<le> tail q \<and> unat (tail q) \<le> k \<and> unat (tail q - head q) \<le> n)"



definition slot_range :: "LockFreeRingBuffer \<Rightarrow> 64 word \<Rightarrow> nat set" where
  "slot_range q i = {slot_of q i ..< slot_of q i + entry_size q}"

text \<open>The trailer of slot \<open>j\<close>; the slots that hold a record: those of the indices from
  \<open>head\<close> up to \<open>tail\<close>; the calls whose record fits a slot and has a length that the
  trailer can tell from zero.\<close>

definition trailer_of :: "LockFreeRingBuffer \<Rightarrow> nat \<Rightarrow> fault + nat" where
  "trailer_of q j = read_trailer (aligned_buffer q) (buffer_size q) (j * entry_size q) (entry_size q)"

definition holds_record :: "LockFreeRingBuffer \<Rightarrow> nat \<Rightarrow> bool" where
  "holds_record q j = (\<exists>k \<in> {unat (head q) ..< unat (tail q)}. k mod max_entries q = j)"

fun fitting :: "nat \<Rightarrow> rb_call \<Rightarrow> bool" where
  "fitting es (Enqueue data len) = (len mod 65536 \<noteq> 0 \<and> len \<le> es - 2)"
| "fitting es (Dequeue cap) = True"

definition trailer_inv :: "LockFreeRingBuffer \<Rightarrow> bool" where
  "trailer_inv q = (\<forall>j < max_entries q. (trailer_of q j \<noteq> Inr 0) = holds_record q j)"

section \<open>The backoff of the specification, and what the worker leaves alone\<close>

text \<open>The wait that the specification prescribes after failed attempt number \<open>k\<close>
  (counted from 0): \<open>2 ^ k\<close> yields for \<open>k = 0..3\<close>, from attempt 4 on a sleep of
  100 ns.\<close>

definition spec_backoff_wait :: "nat \<Rightarrow> event list" where
  "spec_backoff_wait k = (if k < 4 then replicate (2 ^ k) Yield else [Sleep_ns 100])"

text \<open>The part of the state that belongs to the logging thread alone.\<close>

definition thread_view :: "Logger \<Rightarrow> ThreadLocalBatch \<times> event list \<times> string \<times> thread_state option \<times> bool" where
  "thread_view s = (batch s, events s, format_buf s, worker s, running s)"

text \<open>No worker thread is running its main loop.\<close>

definition idle :: "Logger \<Rightarrow> bool" where
  "idle s = (worker s \<noteq> Some Started \<or> \<not> running s)"

section \<open>Two states of the logger used as examples\<close>




section \<open>The ring buffer: basic facts\<close>

lemma await_trailer_Some:
  "await_trailer q slot = Some r \<Longrightarrow>
     read_trailer (aligned_buffer q) (buffer_size q) slot (entry_size q) = r \<and> r \<noteq> Inr 0"
  apply (rule await_trailer.raw_induct[where P="\<lambda>q slot r. read_trailer (aligned_buffer q) (buffer_size q) slot (entry_size q) = r \<and> r \<noteq> Inr 0"])
   apply (auto split: sum.splits if_splits)
  done

lemma await_trailer_zero:
  "read_trailer (aligned_buffer q) (buffer_size q) slot (entry_size q) = Inr 0 \<Longrightarrow>
     await_trailer q slot = None"
  using await_trailer_Some [of q slot] by (cases "await_trailer q slot") auto

lemma await_trailer_nonzero:
  "read_trailer (aligned_buffer q) (buffer_size q) slot (entry_size q) = Inr l \<Longrightarrow> l \<noteq> 0 \<Longrightarrow>
     await_trailer q slot = Some (Inr l)"
  by (subst await_trailer.simps) simp

lemma await_trailer_fault:
  "read_trailer (aligned_buffer q) (buffer_size q) slot (entry_size q) = Inl f \<Longrightarrow>
     await_trailer q slot = Some (Inl f)"
  by (subst await_trailer.simps) simp

lemma await_trailer_eq:
  "await_trailer q slot =
     (case read_trailer (aligned_buffer q) (buffer_size q) slot (entry_size q) of
        Inl f \<Rightarrow> Some (Inl f)
      | Inr l \<Rightarrow> if l = 0 then None else Some (Inr l))"
  by (auto split: sum.splits simp: await_trailer_zero await_trailer_nonzero await_trailer_fault)

lemma try_enqueue_Inr:
  assumes "try_enqueue q data len = Inr (ok, q')"
  shows "(\<not> ok \<and> q' = q \<and> max_entries q \<le> unat (tail q - head q)) \<or>
         (ok \<and> unat (tail q - head q) < max_entries q \<and> tail q' = tail q + 1 \<and> head q' = head q
            \<and> max_entries q' = max_entries q \<and> entry_size q' = entry_size q)"
  using assms
  by (auto simp: try_enqueue_def reserve_def publish_def Let_def split: if_splits sum.splits)

lemma try_enqueue_full:
  "max_entries q \<le> unat (tail q - head q) \<Longrightarrow> try_enqueue q data len = Inr (False, q)"
  by (simp add: try_enqueue_def reserve_def)

lemma try_dequeue_Inr:
  assumes "try_dequeue q cap = Some (Inr (ok, entry, q'))"
  shows "(\<not> ok \<and> q' = q \<and> entry = [] \<and> tail q \<le> head q) \<or>
         (ok \<and> head q < tail q \<and> head q' = head q + 1 \<and> tail q' = tail q
            \<and> max_entries q' = max_entries q \<and> entry_size q' = entry_size q)"
  using assms
  by (auto simp: try_dequeue_def Let_def split: if_splits sum.splits option.splits)

lemma reserve_Some:
  assumes "reserve q = Some (i, q1)"
  shows "i = tail q \<and> q1 = q\<lparr>tail := tail q + 1\<rparr> \<and> unat (tail q - head q) < max_entries q"
  using assms by (auto simp: reserve_def Let_def split: if_splits)

lemma write_read_trailer:
  "v < 65536 \<Longrightarrow> write_trailer m n s e v = Inr m' \<Longrightarrow> read_trailer m' n s e = Inr v"
  by (auto simp: write_trailer_def read_trailer_def split: if_splits)

text \<open>On a ring buffer whose size did not wrap in the constructor, the array has
  \<open>entry_size * max_entries\<close> bytes, the offset of a slot is its index times
  \<open>entry_size\<close>, and every slot lies in the array.\<close>

lemma buffer_size_fits:
  assumes "entry_size q * max_entries q < 2 ^ 64"
  shows "buffer_size q = entry_size q * max_entries q"
  using assms by (simp add: buffer_size_def)

lemma slot_of_fits:
  assumes "entry_size q * max_entries q < 2 ^ 64" "0 < max_entries q"
  shows "slot_of q i = (unat i mod max_entries q) * entry_size q"
proof -
  have "unat i mod max_entries q \<le> max_entries q" using assms(2) by simp
  then have "(unat i mod max_entries q) * entry_size q \<le> max_entries q * entry_size q"
    by (rule mult_le_mono1)
  also have "\<dots> < 2 ^ 64" using assms(1) by (simp add: ac_simps)
  finally show ?thesis by (simp add: slot_of_def)
qed

lemma slot_in_buffer:
  assumes "entry_size q * max_entries q < 2 ^ 64" "0 < max_entries q"
  shows "slot_of q i + entry_size q \<le> buffer_size q"
proof -
  have "unat i mod max_entries q < max_entries q" using assms(2) by simp
  then have "Suc (unat i mod max_entries q) \<le> max_entries q" by simp
  then have "Suc (unat i mod max_entries q) * entry_size q \<le> max_entries q * entry_size q"
    by (rule mult_le_mono1)
  then show ?thesis
    by (simp add: slot_of_fits [OF assms] buffer_size_fits [OF assms(1)] ac_simps)
qed

lemma construct_ring_fits:
  assumes "es * n + 64 < 2 ^ 64"
  shows "construct_ring es n = Inr (new_ring es n)"
  using assms by (simp add: construct_ring_def Let_def)

text \<open>The queue of the logger, \<open>LockFreeRingBuffer(256, 65536)\<close>, is constructed without
  a throw.\<close>

lemma construct_logger_ring: "construct_ring 256 65536 = Inr (new_ring 256 65536)"
  by (rule construct_ring_fits) simp

lemma unat_succ: "unat (w :: 64 word) + 1 < 2 ^ 64 \<Longrightarrow> unat (w + 1) = unat w + 1"
  by (simp add: unat_word_ariths)

lemma unat_diff: "(h :: 64 word) \<le> t \<Longrightarrow> unat (t - h) = unat t - unat h"
  by (simp add: unat_sub)

lemma enq_counters:
  fixes h t :: "64 word"
  assumes "h \<le> t" "unat t \<le> k" "Suc k < 2 ^ 64" "unat (t - h) < n"
  shows "h \<le> t + 1 \<and> unat (t + 1) \<le> Suc k \<and> unat (t + 1 - h) \<le> n \<and> t \<le> t + 1"
proof -
  have s: "unat (t + 1) = unat t + 1" using assms by (intro unat_succ) simp
  have "unat h \<le> unat t" using assms(1) by (simp add: word_le_nat_alt)
  then have 1: "h \<le> t + 1" using s by (simp add: word_le_nat_alt)
  have "unat (t + 1 - h) = unat (t + 1) - unat h" using 1 by (rule unat_diff)
  moreover have "unat (t - h) = unat t - unat h" using assms(1) by (rule unat_diff)
  ultimately show ?thesis using assms s 1 \<open>unat h \<le> unat t\<close> by (simp add: word_le_nat_alt)
qed

lemma deq_counters:
  fixes h t :: "64 word"
  assumes "h < t" "unat (t - h) \<le> n"
  shows "h + 1 \<le> t \<and> unat (t - (h + 1)) \<le> n \<and> h \<le> h + 1"
proof -
  have lt: "unat h < unat t" using assms(1) by (simp add: word_less_nat_alt)
  have "unat t < 2 ^ 64" using unsigned_less [of t] by simp
  then have s: "unat (h + 1) = unat h + 1" using lt by (intro unat_succ) simp
  then have 1: "h + 1 \<le> t" using lt by (simp add: word_le_nat_alt)
  have "unat (t - (h + 1)) = unat t - unat (h + 1)" using 1 by (rule unat_diff)
  moreover have "unat (t - h) = unat t - unat h" using assms(1) by (intro unat_diff) simp
  ultimately show ?thesis using assms s 1 lt by (simp add: word_le_nat_alt)
qed

lemma ring_inv_step:
  assumes "ring_inv n k q" "Suc k < 2 ^ 64" "rb_step q c = Some q'"
  shows "ring_inv n (Suc k) q' \<and> head q \<le> head q' \<and> tail q \<le> tail q'"
proof (cases c)
  case (Enqueue data len)
  then obtain ok where "try_enqueue q data len = Inr (ok, q')"
    using assms(3) by (auto split: sum.splits)
  from try_enqueue_Inr [OF this] show ?thesis
  proof (elim disjE conjE)
    assume "q' = q" then show ?thesis using assms(1) by (simp add: ring_inv_def)
  next
    assume a: "unat (tail q - head q) < max_entries q" "tail q' = tail q + 1" "head q' = head q"
      "max_entries q' = max_entries q"
    have "head q \<le> tail q" "unat (tail q) \<le> k" "max_entries q = n"
      using assms(1) by (simp_all add: ring_inv_def)
    with enq_counters [of "head q" "tail q" k n] a assms(2)
    show ?thesis by (simp add: ring_inv_def)
  qed
next
  case (Dequeue cap)
  then obtain ok entry where "try_dequeue q cap = Some (Inr (ok, entry, q'))"
    using assms(3) by (auto split: sum.splits option.splits)
  from try_dequeue_Inr [OF this] show ?thesis
  proof (elim disjE conjE)
    assume "q' = q" then show ?thesis using assms(1) by (simp add: ring_inv_def)
  next
    assume a: "head q < tail q" "head q' = head q + 1" "tail q' = tail q"
      "max_entries q' = max_entries q"
    have "unat (tail q) \<le> k" "max_entries q = n" "unat (tail q - head q) \<le> n"
      using assms(1) by (simp_all add: ring_inv_def)
    with deq_counters [of "head q" "tail q" n] a
    show ?thesis by (simp add: ring_inv_def)
  qed
qed

lemma ring_inv_run:
  assumes "ring_inv n k q" "k + length cs < 2 ^ 64" "rb_run q cs = Some q'"
  shows "ring_inv n (k + length cs) q'"
  using assms
proof (induction cs arbitrary: k q)
  case Nil
  then show ?case by simp
next
  case (Cons c cs)
  from Cons.prems(3) obtain q1 where 1: "rb_step q c = Some q1" and 2: "rb_run q1 cs = Some q'"
    by (auto split: option.splits)
  have "ring_inv n (Suc k) q1"
    using ring_inv_step [OF Cons.prems(1) _ 1] Cons.prems(2) by simp
  from Cons.IH [OF this _ 2] Cons.prems(2) show ?case by simp
qed

lemma ring_inv_new: "ring_inv n 0 (new_ring es n)"
  by (simp add: ring_inv_def new_ring_def)

lemma enq_size:
  fixes h t :: "64 word"
  assumes "unat (t - h) < n"
  shows "unat (t + 1 - h) \<le> n"
proof -
  have e: "t + 1 - h = (t - h) + 1" by simp
  have "unat ((t - h) + 1) \<le> unat (t - h) + 1"
    by (simp add: unat_word_ariths)
  then have "unat (t + 1 - h) \<le> unat (t - h) + 1" by (simp only: e)
  then show ?thesis using assms by simp
qed

lemma ring_size_step:
  assumes "max_entries q = n \<and> unat (tail q - head q) \<le> n" "rb_step q c = Some q'"
  shows "max_entries q' = n \<and> unat (tail q' - head q') \<le> n"
proof (cases c)
  case (Enqueue data len)
  then obtain ok where "try_enqueue q data len = Inr (ok, q')"
    using assms(2) by (auto split: sum.splits)
  from try_enqueue_Inr [OF this] assms(1) enq_size [of "tail q" "head q" n]
  show ?thesis by auto
next
  case (Dequeue cap)
  then obtain ok entry where "try_dequeue q cap = Some (Inr (ok, entry, q'))"
    using assms(2) by (auto split: sum.splits option.splits)
  from try_dequeue_Inr [OF this] assms(1) deq_counters [of "head q" "tail q" n]
  show ?thesis by auto
qed

lemma ring_size_run:
  assumes "max_entries q = n \<and> unat (tail q - head q) \<le> n" "rb_run q cs = Some q'"
  shows "max_entries q' = n \<and> unat (tail q' - head q') \<le> n"
  using assms
proof (induction cs arbitrary: q)
  case Nil
  then show ?case by simp
next
  case (Cons c cs)
  from Cons.prems(2) obtain q1 where 1: "rb_step q c = Some q1" and 2: "rb_run q1 cs = Some q'"
    by (auto split: option.splits)
  from Cons.IH [OF ring_size_step [OF Cons.prems(1) 1] 2] show ?case .
qed

section \<open>The trailers of the slots\<close>

lemma try_enqueue_fits:
  assumes "2 \<le> entry_size q" "entry_size q * max_entries q < 2 ^ 64"
    and "reserve q = Some (i, q1)" "len \<le> entry_size q - 2" "len \<le> snd data"
  shows "\<exists>q'. try_enqueue q data len = Inr (True, q') \<and>
               (\<forall>k < len. aligned_buffer q' (slot_of q i + k) = fst data k) \<and>
               read_trailer (aligned_buffer q') (buffer_size q') (slot_of q i) (entry_size q')
                 = Inr (len mod 65536) \<and>
               (\<forall>a. a \<notin> slot_range q i \<longrightarrow> aligned_buffer q' a = aligned_buffer q a)"
proof -
  from reserve_Some [OF assms(3)]
  have i: "i = tail q" and q1: "q1 = q\<lparr>tail := tail q + 1\<rparr>"
    and room: "unat (tail q - head q) < max_entries q" by simp_all
  have es: "entry_size q1 = entry_size q" and sl: "slot_of q1 i = slot_of q i"
    and bs: "buffer_size q1 = buffer_size q" and ab: "aligned_buffer q1 = aligned_buffer q"
    by (simp_all add: q1 slot_of_def buffer_size_def)
  have "0 < max_entries q" using room by simp
  from slot_in_buffer [OF assms(2) this]
  have inb: "slot_of q i + entry_size q \<le> buffer_size q" .
  define m where "m = (\<lambda>a. if slot_of q i \<le> a \<and> a < slot_of q i + len
                             then fst data (a - slot_of q i) else aligned_buffer q a)"
  define m' where "m' = m(slot_of q i + entry_size q - 2 := char_of (len mod 65536 mod 256),
                          slot_of q i + entry_size q - 1 := char_of (len mod 65536 div 256 mod 256))"
  have cp: "memcpy (aligned_buffer q1) (buffer_size q1) (slot_of q1 i) data len = Inr m"
    using assms(4,5) inb by (simp add: memcpy_def m_def es sl bs ab)
  have tr: "write_trailer m (buffer_size q1) (slot_of q1 i) (entry_size q1) (len mod 65536) = Inr m'"
    using inb assms(1) by (simp add: write_trailer_def m'_def es sl bs)
  have pub: "publish q1 i data len = Inr (q1\<lparr>aligned_buffer := m'\<rparr>)"
    by (simp add: publish_def Let_def cp tr)
  have enq: "try_enqueue q data len = Inr (True, q1\<lparr>aligned_buffer := m'\<rparr>)"
    by (simp add: try_enqueue_def assms(3) pub)
  have pay: "m' (slot_of q i + k) = fst data k" if "k < len" for k
  proof -
    have "slot_of q i + k \<noteq> slot_of q i + entry_size q - 2"
      "slot_of q i + k \<noteq> slot_of q i + entry_size q - 1"
      using that assms(1,4) by arith+
    then show ?thesis using that by (simp add: m'_def m_def)
  qed
  have rd: "read_trailer m' (buffer_size q) (slot_of q i) (entry_size q) = Inr (len mod 65536)"
    using write_read_trailer [OF _ tr] by (simp add: es sl bs)
  have fr: "m' a = aligned_buffer q a" if "a \<notin> slot_range q i" for a
    using that assms(1,4) by (auto simp: m'_def m_def slot_range_def)
  show ?thesis using enq pay rd fr by (simp add: q1 buffer_size_def)
qed



lemma try_enqueue_True_source:
  assumes "try_enqueue q data len = Inr (True, q')"
  shows "len \<le> snd data \<and> reserve q = Some (tail q, q\<lparr>tail := tail q + 1\<rparr>)"
  using assms
  by (auto simp: try_enqueue_def reserve_def publish_def memcpy_def Let_def
      split: if_splits sum.splits option.splits)

lemma try_dequeue_True:
  assumes "try_dequeue q cap = Some (Inr (True, entry, q'))"
  shows "\<exists>m. write_trailer (aligned_buffer q) (buffer_size q) (slot_of q (head q)) (entry_size q) 0 = Inr m \<and>
           q' = q\<lparr>aligned_buffer := m, head := head q + 1\<rparr> \<and> head q < tail q"
  using assms
  by (auto simp: try_dequeue_def Let_def split: if_splits sum.splits option.splits)

lemma slots_disjoint:
  fixes j j' es a :: nat
  assumes "j \<noteq> j'" "a \<in> {j * es ..< j * es + es}"
  shows "a \<notin> {j' * es ..< j' * es + es}"
proof
  assume b: "a \<in> {j' * es ..< j' * es + es}"
  consider "j < j'" | "j' < j" using assms(1) by arith
  then show False
  proof cases
    case 1
    then have "Suc j * es \<le> j' * es" by (intro mult_le_mono1) simp
    with assms(2) b show False by simp
  next
    case 2
    then have "Suc j' * es \<le> j * es" by (intro mult_le_mono1) simp
    with assms(2) b show False by simp
  qed
qed

lemma trailer_of_frame:
  assumes "2 \<le> entry_size q" "entry_size q' = entry_size q" "max_entries q' = max_entries q"
    and "\<forall>a. a \<notin> {j' * entry_size q ..< j' * entry_size q + entry_size q} \<longrightarrow>
           aligned_buffer q' a = aligned_buffer q a"
    and "j \<noteq> j'"
  shows "trailer_of q' j = trailer_of q j"
proof -
  let ?es = "entry_size q"
  have "j * ?es + ?es - 2 \<in> {j * ?es ..< j * ?es + ?es}" "j * ?es + ?es - 1 \<in> {j * ?es ..< j * ?es + ?es}"
    using assms(1) by auto
  then have "j * ?es + ?es - 2 \<notin> {j' * ?es ..< j' * ?es + ?es}"
    "j * ?es + ?es - 1 \<notin> {j' * ?es ..< j' * ?es + ?es}"
    using slots_disjoint [OF assms(5)] by blast+
  with assms(4) have "aligned_buffer q' (j * ?es + ?es - 2) = aligned_buffer q (j * ?es + ?es - 2)"
    "aligned_buffer q' (j * ?es + ?es - 1) = aligned_buffer q (j * ?es + ?es - 1)"
    by blast+
  then show ?thesis
    by (simp add: trailer_of_def read_trailer_def buffer_size_def assms(2,3))
qed

lemma window_mod:
  assumes "(h :: nat) < k" "k < h + n"
  shows "k mod n \<noteq> h mod n"
proof
  assume "k mod n = h mod n"
  then have "(k - h) mod n = 0"
    using assms(1) by (metis mod_eq_dvd_iff_nat dvd_imp_mod_0 less_imp_le)
  moreover have "0 < k - h" "k - h < n" using assms by simp_all
  ultimately show False by simp
qed


lemma trailer_inv_enqueue:
  assumes es: "2 \<le> entry_size q" and fit: "entry_size q * max_entries q < 2 ^ 64"
    and inv: "ring_inv n k q" and k: "Suc k < 2 ^ 64"
    and ti: "trailer_inv q" and len: "len mod 65536 \<noteq> 0" "len \<le> entry_size q - 2"
    and enq: "try_enqueue q data len = Inr (True, q')"
  shows "trailer_inv q'"
proof -
  from try_enqueue_Inr [OF enq] have
    a: "tail q' = tail q + 1" "head q' = head q" "max_entries q' = max_entries q"
      "entry_size q' = entry_size q" "unat (tail q - head q) < max_entries q"
    by simp_all
  from try_enqueue_True_source [OF enq] have src: "len \<le> snd data"
    and res: "reserve q = Some (tail q, q\<lparr>tail := tail q + 1\<rparr>)" by simp_all
  from try_enqueue_fits [OF es fit res len(2) src] enq have
    rd: "read_trailer (aligned_buffer q') (buffer_size q') (slot_of q (tail q)) (entry_size q')
           = Inr (len mod 65536)"
    and fr: "\<forall>a. a \<notin> slot_range q (tail q) \<longrightarrow> aligned_buffer q' a = aligned_buffer q a"
    by auto
  let ?jt = "unat (tail q) mod max_entries q"
  have sl: "slot_of q (tail q) = ?jt * entry_size q"
    using a(5) by (intro slot_of_fits [OF fit]) simp
  from inv have le: "unat (head q) \<le> unat (tail q)" and tk: "unat (tail q) \<le> k"
    by (simp_all add: ring_inv_def word_le_nat_alt)
  have t1: "unat (tail q') = unat (tail q) + 1"
    using a(1) tk k by (simp add: unat_succ)
  show ?thesis
    unfolding trailer_inv_def
  proof (intro allI impI)
    fix j assume j: "j < max_entries q'"
    show "(trailer_of q' j \<noteq> Inr 0) = holds_record q' j"
    proof (cases "j = ?jt")
      case True
      have "trailer_of q' j = Inr (len mod 65536)"
        using rd True sl by (simp add: trailer_of_def a)
      moreover have "holds_record q' j"
        unfolding holds_record_def using True le t1 a
        by (intro bexI [of _ "unat (tail q)"]) simp_all
      ultimately show ?thesis using len(1) by simp
    next
      case False
      have "trailer_of q' j = trailer_of q j"
        using fr by (intro trailer_of_frame [OF es a(4) a(3) _ False]) (simp add: slot_range_def sl)
      moreover have "holds_record q' j = holds_record q j"
        unfolding holds_record_def using False t1 a
        by (auto simp: less_Suc_eq)
      ultimately show ?thesis using ti j a(3) by (simp add: trailer_inv_def)
    qed
  qed
qed

lemma trailer_inv_dequeue:
  assumes es: "2 \<le> entry_size q" and fit: "entry_size q * max_entries q < 2 ^ 64"
    and inv: "ring_inv n k q"
    and ti: "trailer_inv q"
    and deq: "try_dequeue q cap = Some (Inr (True, entry, q'))"
  shows "trailer_inv q'"
proof -
  from try_dequeue_True [OF deq] obtain m where
    w: "write_trailer (aligned_buffer q) (buffer_size q) (slot_of q (head q)) (entry_size q) 0 = Inr m"
    and q': "q' = q\<lparr>aligned_buffer := m, head := head q + 1\<rparr>" and lt: "head q < tail q"
    by auto
  let ?jh = "unat (head q) mod max_entries q"
  let ?es = "entry_size q"
  have lt': "unat (head q) < unat (tail q)" using lt by (simp add: word_less_nat_alt)
  have "unat (tail q) < 2 ^ 64" using unsigned_less [of "tail q"] by simp
  then have h1: "unat (head q + 1) = unat (head q) + 1" using lt' by (intro unat_succ) simp
  from inv have "unat (tail q - head q) \<le> max_entries q" "head q \<le> tail q"
    by (simp_all add: ring_inv_def)
  then have win: "unat (tail q) \<le> unat (head q) + max_entries q"
    using unat_diff [of "head q" "tail q"] by simp
  have pos: "0 < max_entries q" using win lt' by simp
  have sl: "slot_of q (head q) = ?jh * ?es" by (rule slot_of_fits [OF fit pos])
  have m: "m = (aligned_buffer q)(?jh * ?es + ?es - 2 := char_of (0 :: nat), ?jh * ?es + ?es - 1 := char_of (0 :: nat))"
    using w by (auto simp: write_trailer_def sl split: if_splits)
  show ?thesis
    unfolding trailer_inv_def
  proof (intro allI impI)
    fix j assume j: "j < max_entries q'"
    show "(trailer_of q' j \<noteq> Inr 0) = holds_record q' j"
    proof (cases "j = ?jh")
      case True
      have "read_trailer m (buffer_size q) (slot_of q (head q)) ?es = Inr 0"
        using write_read_trailer [OF _ w] by simp
      then have "trailer_of q' j = Inr 0"
        using True sl by (simp add: trailer_of_def q' buffer_size_def)
      moreover have "\<not> holds_record q' j"
      proof
        assume "holds_record q' j"
        then obtain k' where "Suc (unat (head q)) \<le> k'" "k' < unat (tail q)" "k' mod max_entries q = ?jh"
          using True h1 by (auto simp: holds_record_def q')
        then have "unat (head q) < k'" "k' < unat (tail q)" "k' mod max_entries q = ?jh"
          by simp_all
        with window_mod [of "unat (head q)" k' "max_entries q"] win show False by simp
      qed
      ultimately show ?thesis by simp
    next
      case False
      have "trailer_of q' j = trailer_of q j"
      proof (rule trailer_of_frame [OF es _ _ _ False])
        show "entry_size q' = entry_size q" "max_entries q' = max_entries q" by (simp_all add: q')
        show "\<forall>a. a \<notin> {?jh * ?es ..< ?jh * ?es + ?es} \<longrightarrow> aligned_buffer q' a = aligned_buffer q a"
          using es by (auto simp: q' m)
      qed
      moreover have "holds_record q' j = holds_record q j"
      proof -
        have "{unat (head q) ..< unat (tail q)} = insert (unat (head q)) {unat (head q) + 1 ..< unat (tail q)}"
          using lt' by auto
        then show ?thesis using False h1 by (simp add: holds_record_def q')
      qed
      ultimately show ?thesis using ti j by (simp add: trailer_inv_def q')
    qed
  qed
qed

lemma trailer_inv_step:
  assumes "2 \<le> entry_size q" "ring_inv n k q" "Suc k < 2 ^ 64" "trailer_inv q"
    and "fitting (entry_size q) c" "rb_step q c = Some q'"
    and fit: "entry_size q * max_entries q < 2 ^ 64"
  shows "trailer_inv q' \<and> entry_size q' = entry_size q"
proof (cases c)
  case (Enqueue data len)
  then obtain ok where e: "try_enqueue q data len = Inr (ok, q')"
    using assms(6) by (auto split: sum.splits)
  show ?thesis
  proof (cases ok)
    case True
    with e trailer_inv_enqueue [OF assms(1) fit assms(2-4), of len data q'] assms(5) Enqueue
      try_enqueue_Inr [OF e] show ?thesis by simp
  next
    case False
    with try_enqueue_Inr [OF e] assms(4) show ?thesis by simp
  qed
next
  case (Dequeue cap)
  then obtain ok entry where d: "try_dequeue q cap = Some (Inr (ok, entry, q'))"
    using assms(6) by (auto split: sum.splits option.splits)
  show ?thesis
  proof (cases ok)
    case True
    with d trailer_inv_dequeue [OF assms(1) fit assms(2,4), of cap entry q'] try_dequeue_Inr [OF d]
    show ?thesis by simp
  next
    case False
    with try_dequeue_Inr [OF d] assms(4) show ?thesis by simp
  qed
qed

lemma trailer_inv_run:
  assumes "2 \<le> entry_size q" "ring_inv n k q" "k + length cs < 2 ^ 64" "trailer_inv q"
    and "list_all (fitting (entry_size q)) cs" "rb_run q cs = Some q'"
    and "entry_size q * n < 2 ^ 64"
  shows "trailer_inv q'"
  using assms
proof (induction cs arbitrary: k q)
  case Nil
  then show ?case by simp
next
  case (Cons c cs)
  from Cons.prems(6) obtain q1 where 1: "rb_step q c = Some q1" and 2: "rb_run q1 cs = Some q'"
    by (auto split: option.splits)
  have k: "Suc k < 2 ^ 64" using Cons.prems(3) by simp
  have f: "fitting (entry_size q) c" using Cons.prems(5) by simp
  have n: "max_entries q = n" using Cons.prems(2) by (simp add: ring_inv_def)
  have fit: "entry_size q * max_entries q < 2 ^ 64" using Cons.prems(7) n by simp
  from trailer_inv_step [OF Cons.prems(1,2) k Cons.prems(4) f 1 fit] have
    t: "trailer_inv q1" and e: "entry_size q1 = entry_size q" by simp_all
  from ring_inv_step [OF Cons.prems(2) k 1] have r: "ring_inv n (Suc k) q1" by simp
  show ?case
    using Cons.IH [OF _ r _ t _ 2] Cons.prems(1,3,5,7) e by simp
qed

lemma trailer_inv_new:
  assumes "2 \<le> es" "es * n < 2 ^ 64"
  shows "trailer_inv (new_ring es n)"
  unfolding trailer_inv_def
proof (intro allI impI)
  fix j assume "j < max_entries (new_ring es n)"
  then have "Suc j * es \<le> n * es" by (intro mult_le_mono1) (simp add: new_ring_def)
  then have "trailer_of (new_ring es n) j = Inr 0"
    using assms by (simp add: trailer_of_def new_ring_def read_trailer_def buffer_size_def
        zero_memory_def ac_simps)
  then show "(trailer_of (new_ring es n) j \<noteq> Inr 0) = holds_record (new_ring es n) j"
    by (simp add: holds_record_def new_ring_def)
qed

text \<open>The trailer discipline for records that fit, on a ring buffer whose size did not
  wrap: after any sequence of returning calls whose records have a length between 1 and
  \<open>entry_size - 2\<close> with low 16 bits not all zero, the trailer of a slot is nonzero
  exactly when the slot holds a record that has been published and not consumed; so in an
  empty queue every trailer is zero.\<close>

lemma trailer_discipline:
  assumes "2 \<le> es" "rb_run (new_ring es n) cs = Some q" "list_all (fitting es) cs"
    and "length cs < 2 ^ 64 - 1" and "es * n < 2 ^ 64"
  shows "trailer_inv q \<and> (head q = tail q \<longrightarrow> (\<forall>j < n. trailer_of q j = Inr 0))"
proof -
  have e: "entry_size (new_ring es n) = es" by (simp add: new_ring_def)
  have t: "trailer_inv q"
    using trailer_inv_run [OF _ ring_inv_new _ trailer_inv_new [OF assms(1,5)] _ assms(2)]
      assms(1,3,4,5) e by simp
  have "max_entries q = n"
    using ring_inv_run [OF ring_inv_new _ assms(2)] assms(4) by (simp add: ring_inv_def)
  then show ?thesis using t by (auto simp: trailer_inv_def holds_record_def)
qed

section \<open>Evaluation\<close>

text \<open>The equations by which the operations are evaluated on given states.\<close>

lemmas ring_eval = try_enqueue_def reserve_def publish_def try_dequeue_def await_trailer_eq
  new_ring_def slot_of_def memcpy_def buffer_size_def write_trailer_def read_trailer_def
  zero_memory_def string_source_def Let_def

lemmas logger_eval = log_def render_def fmt_int_def cdiv_def cmod_def levels_def digits_def
  new_Logger_def new_sink_def new_batch_def try_add_def BATCH_SIZE_def ENTRY_SIZE_def
  batch_at_def clear_def flush_batch_def sink_write_def sink_flush_def


section \<open>The worker, the retry loop and the flush loop\<close>

lemma backoff_wait_spec:
  "backoff_wait (min k 4) s = (min (Suc k) 4, s\<lparr>events := events s @ spec_backoff_wait k\<rparr>)"
  by (auto simp: backoff_wait_def spec_backoff_wait_def BACKOFF_MAX_def min_def)

lemma worker_poll_Inr:
  assumes "worker_poll s = Some (Inr (ok, s'))"
  shows "\<exists>q q'. queue s = Some q \<and> queue s' = Some q' \<and> tail q' = tail q \<and>
           max_entries q' = max_entries q \<and> entry_size q' = entry_size q \<and>
           thread_view s' = thread_view s \<and>
           (if ok then head q < tail q \<and> head q' = head q + 1
            else s' = s \<and> tail q \<le> head q)"
proof -
  from assms obtain q where q: "queue s = Some q"
    by (auto simp: worker_poll_def split: option.splits)
  from assms q obtain entry q' where d: "try_dequeue q 256 = Some (Inr (ok, entry, q'))"
    and s': "s' = (if ok then s\<lparr>queue := Some q', sink := sink_write (sink s) entry\<rparr> else s)"
    by (auto simp: worker_poll_def split: option.splits sum.splits if_splits)
  from try_dequeue_Inr [OF d] q s' show ?thesis
    by (auto simp: thread_view_def)
qed

lemma worker_steps_idle: "idle s \<Longrightarrow> worker_steps k s = Inr s"
  by (cases k) (auto simp: idle_def)

lemma worker_steps_Inr:
  assumes "worker_steps k s = Inr s'" "queue s = Some q"
  shows "\<exists>q'. queue s' = Some q' \<and> tail q' = tail q \<and> max_entries q' = max_entries q \<and>
           entry_size q' = entry_size q \<and> thread_view s' = thread_view s"
  using assms
proof (induction k arbitrary: s q)
  case 0
  then show ?case by simp
next
  case (Suc k)
  show ?case
  proof (cases "worker s = Some Started \<and> running s")
    case False
    with Suc.prems show ?thesis by auto
  next
    case True
    show ?thesis
    proof (cases "worker_poll s")
      case None
      with True Suc.prems show ?thesis by auto
    next
      case (Some r)
      with True Suc.prems obtain ok s1 where r: "worker_poll s = Some (Inr (ok, s1))"
        and k: "worker_steps k s1 = Inr s'"
        by (auto split: sum.splits)
      from worker_poll_Inr [OF r] Suc.prems(2) obtain q1 where
        q1: "queue s1 = Some q1" "tail q1 = tail q" "max_entries q1 = max_entries q"
          "entry_size q1 = entry_size q" "thread_view s1 = thread_view s"
        by auto
      from Suc.IH [OF k q1(1)] q1 show ?thesis by auto
    qed
  qed
qed

lemma meanwhile_Inr:
  assumes "meanwhile sched s = Inr (sched', s')" "queue s = Some q"
  shows "\<exists>q'. queue s' = Some q' \<and> tail q' = tail q \<and> max_entries q' = max_entries q \<and>
           entry_size q' = entry_size q \<and> thread_view s' = thread_view s"
proof (cases sched)
  case Nil
  with assms show ?thesis by (simp add: meanwhile_def)
next
  case (Cons k rest)
  with assms have "worker_steps k s = Inr s'"
    by (auto simp: meanwhile_def split: sum.splits)
  from worker_steps_Inr [OF this assms(2)] show ?thesis .
qed

lemma meanwhile_idle: "idle s \<Longrightarrow> meanwhile sched s = Inr (tl sched, s)"
  by (cases sched) (simp_all add: meanwhile_def worker_steps_idle)

lemma upt_waits:
  "spec_backoff_wait k @ concat (map spec_backoff_wait [Suc k..<Suc k + m])
     = concat (map spec_backoff_wait [k..<k + Suc m])"
proof -
  have "k < k + Suc m" by simp
  from upt_conv_Cons [OF this] have "[k..<k + Suc m] = k # [Suc k..<k + Suc m]" .
  moreover have "Suc k + m = k + Suc m" by simp
  ultimately have "[k..<k + Suc m] = k # [Suc k..<Suc k + m]" by (simp only:)
  then show ?thesis by (simp only: list.map concat.simps)
qed

lemma set_spec_backoff_wait: "set (spec_backoff_wait k) \<subseteq> {Yield, Sleep_ns 100}"
  by (auto simp: spec_backoff_wait_def)

lemma set_waits: "set (concat (map spec_backoff_wait ks)) \<subseteq> {Yield, Sleep_ns 100}"
  using set_spec_backoff_wait by (induction ks) auto

text \<open>Every return of the retry loop is an acceptance, after waits that follow the
  prescribed sequence.\<close>

lemma enqueue_retry_Some:
  assumes "enqueue_retry sched b data len s = Some r"
  shows "\<forall>k sched' s'. b = min k 4 \<longrightarrow> r = Inr (sched', s') \<longrightarrow>
     (\<exists>m q0 q q'. events s' = events s @ concat (map spec_backoff_wait [k..<k + m]) \<and>
        queue s = Some q0 \<and> tail q = tail q0 \<and> max_entries q = max_entries q0 \<and>
        entry_size q = entry_size q0 \<and>
        try_enqueue q data len = Inr (True, q') \<and> queue s' = Some q' \<and>
        batch s' = batch s \<and> format_buf s' = format_buf s \<and> worker s' = worker s \<and>
        running s' = running s \<and> (idle s \<longrightarrow> q = q0 \<and> sink s' = sink s))"
proof (rule enqueue_retry.raw_induct [OF _ assms], goal_cases)
  case (1 retry sched b data len s r)
  show ?case
  proof (intro allI impI)
    fix k sched' s'
    assume b: "b = min k 4" and r: "r = Inr (sched', s')"
    from 1(2) r obtain q0 where q0: "queue s = Some q0"
      by (auto split: option.splits)
    from 1(2) r q0 obtain ok q1 where e: "try_enqueue q0 data len = Inr (ok, q1)"
      by (auto split: sum.splits)
    show "\<exists>m q0 q q'. events s' = events s @ concat (map spec_backoff_wait [k..<k + m]) \<and>
        queue s = Some q0 \<and> tail q = tail q0 \<and> max_entries q = max_entries q0 \<and>
        entry_size q = entry_size q0 \<and>
        try_enqueue q data len = Inr (True, q') \<and> queue s' = Some q' \<and>
        batch s' = batch s \<and> format_buf s' = format_buf s \<and> worker s' = worker s \<and>
        running s' = running s \<and> (idle s \<longrightarrow> q = q0 \<and> sink s' = sink s)"
    proof (cases ok)
      case True
      with 1(2) r q0 e have "s' = s\<lparr>queue := Some q1\<rparr>" by simp
      with True e q0 show ?thesis
        by (intro exI [of _ 0] exI [of _ q0] exI [of _ q1]) simp
    next
      case False
      let ?w = "s\<lparr>events := events s @ spec_backoff_wait k\<rparr>"
      have bw: "backoff_wait b s = (min (Suc k) 4, ?w)"
        using b backoff_wait_spec [of k s] by simp
      from 1(2) r q0 e False bw obtain sched1 s1 where
        mw: "meanwhile sched ?w = Inr (sched1, s1)"
        and rec: "retry sched1 (min (Suc k) 4) data len s1 = Some r"
        by (auto split: sum.splits)
      have qw: "queue ?w = Some q0" using q0 by simp
      from meanwhile_Inr [OF mw qw] obtain qa where
        qa: "queue s1 = Some qa" "tail qa = tail q0" "max_entries qa = max_entries q0"
          "entry_size qa = entry_size q0" "thread_view s1 = thread_view ?w"
        by auto
      from 1(1) [OF rec, rule_format, of "Suc k" sched' s'] r obtain m qb q q' where
        ih: "events s' = events s1 @ concat (map spec_backoff_wait [Suc k..<Suc k + m])"
          "queue s1 = Some qb" "tail q = tail qb" "max_entries q = max_entries qb"
          "entry_size q = entry_size qb"
          "try_enqueue q data len = Inr (True, q')" "queue s' = Some q'"
          "batch s' = batch s1" "format_buf s' = format_buf s1" "worker s' = worker s1"
          "running s' = running s1" "idle s1 \<longrightarrow> q = qb \<and> sink s' = sink s1"
        by blast
      have ev: "events s' = events s @ concat (map spec_backoff_wait [k..<k + Suc m])"
        using ih(1) qa(5) upt_waits [of k m] by (simp add: thread_view_def)
      have id: "idle s \<longrightarrow> q = q0 \<and> sink s' = sink s"
      proof
        assume i: "idle s"
        then have "idle ?w" by (simp add: idle_def)
        from meanwhile_idle [OF this, of sched] mw have "s1 = ?w" by simp
        with ih(12) ih(2) q0 i show "q = q0 \<and> sink s' = sink s" by (simp add: idle_def)
      qed
      show ?thesis
        using ev q0 ih qa id
        by (intro exI [of _ "Suc m"] exI [of _ q0] exI [of _ q] exI [of _ q'])
          (simp add: thread_view_def)
    qed
  qed
qed

text \<open>Every return of the \<open>for\<close> loop has had each remaining record accepted.\<close>

lemma flush_from_Some:
  assumes "flush_from sched i s = Some r"
  shows "\<forall>sched' s' q0. r = Inr (sched', s') \<longrightarrow> i \<le> count (batch s) \<longrightarrow> queue s = Some q0 \<longrightarrow>
     (\<exists>q'. queue s' = Some q' \<and> tail q' = tail q0 + of_nat (count (batch s) - i) \<and>
        max_entries q' = max_entries q0 \<and> entry_size q' = entry_size q0 \<and>
        batch s' = batch s \<and> format_buf s' = format_buf s \<and>
        worker s' = worker s \<and> running s' = running s \<and>
        (idle s \<longrightarrow> head q' = head q0 \<and> sink s' = sink s) \<and>
        set (events s') \<subseteq> set (events s) \<union> {Yield, Sleep_ns 100})"
proof (rule flush_from.raw_induct [OF _ assms], goal_cases)
  case (1 flush sched i s r)
  show ?case
  proof (intro allI impI)
    fix sched' s' q0
    assume r: "r = Inr (sched', s')" and i: "i \<le> count (batch s)" and q0: "queue s = Some q0"
    show "\<exists>q'. queue s' = Some q' \<and> tail q' = tail q0 + of_nat (count (batch s) - i) \<and>
        max_entries q' = max_entries q0 \<and> entry_size q' = entry_size q0 \<and>
        batch s' = batch s \<and> format_buf s' = format_buf s \<and>
        worker s' = worker s \<and> running s' = running s \<and>
        (idle s \<longrightarrow> head q' = head q0 \<and> sink s' = sink s) \<and>
        set (events s') \<subseteq> set (events s) \<union> {Yield, Sleep_ns 100}"
    proof (cases "i < count (batch s)")
      case False
      with 1(2) r i q0 show ?thesis by auto
    next
      case True
      from 1(2) r True obtain len sched1 s1 where
        er: "enqueue_retry sched 0 (batch_at (batch s) i) len s = Some (Inr (sched1, s1))"
        and rec: "flush sched1 (i + 1) s1 = Some r"
        by (auto split: sum.splits option.splits)
      from enqueue_retry_Some [OF er, rule_format, of 0 sched1 s1] q0 obtain m q q1 where
        a: "events s1 = events s @ concat (map spec_backoff_wait [0..<m])"
          "tail q = tail q0" "max_entries q = max_entries q0" "entry_size q = entry_size q0"
          "try_enqueue q (batch_at (batch s) i) len = Inr (True, q1)" "queue s1 = Some q1"
          "batch s1 = batch s" "format_buf s1 = format_buf s" "worker s1 = worker s"
          "running s1 = running s" "idle s \<longrightarrow> q = q0 \<and> sink s1 = sink s"
        by auto
      from try_enqueue_Inr [OF a(5)] have
        b: "tail q1 = tail q + 1" "head q1 = head q" "max_entries q1 = max_entries q"
          "entry_size q1 = entry_size q"
        by simp_all
      have i1: "i + 1 \<le> count (batch s1)" using True a(7) by simp
      from 1(1) [OF rec, rule_format, OF r i1 a(6)] obtain q' where
        c: "queue s' = Some q'" "tail q' = tail q1 + of_nat (count (batch s1) - (i + 1))"
          "max_entries q' = max_entries q1" "entry_size q' = entry_size q1"
          "batch s' = batch s1" "format_buf s' = format_buf s1"
          "worker s' = worker s1" "running s' = running s1"
          "idle s1 \<longrightarrow> head q' = head q1 \<and> sink s' = sink s1"
          "set (events s') \<subseteq> set (events s1) \<union> {Yield, Sleep_ns 100}"
        by auto
      have "count (batch s) - i = Suc (count (batch s) - (i + 1))" using True by simp
      then have t: "tail q' = tail q0 + of_nat (count (batch s) - i)"
        using c(2) b(1) a(2) a(7) by simp
      have id: "idle s1 = idle s" using a(9,10) by (simp add: idle_def)
      have ev: "set (events s') \<subseteq> set (events s) \<union> {Yield, Sleep_ns 100}"
        using c(10) a(1) set_waits [of "[0..<m]"] by auto
      show ?thesis
        using c a b t id ev by simp
    qed
  qed
qed

lemma try_add_count:
  assumes "try_add b data len = Inr (ok, b')"
  shows "(ok \<and> count b' = count b + 1 \<and> count b < BATCH_SIZE) \<or>
         (\<not> ok \<and> b' = b \<and> BATCH_SIZE \<le> count b)"
  using assms by (auto simp: try_add_def Let_def split: if_splits sum.splits)

text \<open>What a returning \<open>flush_batch\<close> has done: pushed every record, emptied the batch,
  and added nothing but yields and sleeps to the events.\<close>

lemma flush_batch_Some:
  assumes "flush_batch sched s = Some (Inr (sched', s'))" "queue s = Some q0"
  shows "count (batch s') = 0 \<and> format_buf s' = format_buf s \<and>
         worker s' = worker s \<and> running s' = running s \<and>
         (\<exists>q'. queue s' = Some q' \<and> tail q' = tail q0 + of_nat (count (batch s))) \<and>
         set (events s') \<subseteq> set (events s) \<union> {Yield, Sleep_ns 100}"
proof -
  from assms(1) obtain r where ff: "flush_from sched 0 s = Some (Inr (sched', r))"
    and s': "s' = r\<lparr>batch := clear (batch r)\<rparr>"
    by (auto simp: flush_batch_def Let_def clear_def split: option.splits sum.splits if_splits)
  from flush_from_Some [OF ff, rule_format, OF refl _ assms(2)] s' show ?thesis
    by (auto simp: clear_def)
qed

text \<open>After a returning call of \<open>log\<close> at an admitted level on an asynchronous logger
  the batch holds at least one record.\<close>

lemma log_leaves_record_in_batch:
  assumes "level_int MinLevel \<le> level_int L" "queue s \<noteq> None"
    and "log MinLevel L ns payload sched s = Some (Inr (sched', s'))"
  shows "0 < count (batch s') \<and> worker s' = worker s \<and> queue s' \<noteq> None"
proof -
  from assms(2) obtain q0 where q0: "queue s = Some q0" by auto
  let ?s1 = "s\<lparr>format_buf := render L ns payload\<rparr>"
  let ?add = "\<lambda>b. try_add b (string_source (render L ns payload)) (length (render L ns payload))"
  from assms q0 obtain ok b where add: "?add (batch s) = Inr (ok, b)"
    by (cases "?add (batch s)") (auto simp: log_def Let_def)
  show ?thesis
  proof (cases ok)
    case True
    with assms q0 add have "s' = ?s1\<lparr>batch := b\<rparr>" by (auto simp: log_def Let_def)
    with try_add_count [OF add] True q0 show ?thesis by auto
  next
    case False
    with assms q0 add obtain sched1 s2 where
      fb: "flush_batch sched ?s1 = Some (Inr (sched1, s2))"
      and rest: "(case ?add (batch s2) of Inl f \<Rightarrow> Some (Inl f)
                  | Inr (ok', b') \<Rightarrow> Some (Inr (sched1, s2\<lparr>batch := b'\<rparr>))) = Some (Inr (sched', s'))"
      by (auto simp: log_def Let_def split: option.splits sum.splits)
    have q1: "queue ?s1 = Some q0" using q0 by simp
    from flush_batch_Some [OF fb q1] obtain q' where
      c: "count (batch s2) = 0" "worker s2 = worker s" "queue s2 = Some q'"
      by auto
    from rest obtain ok' b' where add2: "?add (batch s2) = Inr (ok', b')"
      and s': "s' = s2\<lparr>batch := b'\<rparr>"
      by (auto split: sum.splits)
    from try_add_count [OF add2] c(1) have "count b' = 1"
      by (auto simp: BATCH_SIZE_def)
    with s' c show ?thesis by simp
  qed
qed

lemma drain_Some:
  assumes "drain s = Some r"
  shows "\<forall>s1 q. r = Inr s1 \<longrightarrow> queue s = Some q \<longrightarrow> head q \<le> tail q \<longrightarrow>
     (\<exists>q1. queue s1 = Some q1 \<and> head q1 = tail q1 \<and> tail q1 = tail q \<and>
        max_entries q1 = max_entries q \<and> thread_view s1 = thread_view s)"
proof (rule drain.raw_induct [OF _ assms], goal_cases)
  case (1 drain s r)
  show ?case
  proof (intro allI impI)
    fix s1 q
    assume r: "r = Inr s1" and q: "queue s = Some q" and le: "head q \<le> tail q"
    from 1(2) r obtain ok s' where wp: "worker_poll s = Some (Inr (ok, s'))"
      by (auto split: option.splits sum.splits)
    from worker_poll_Inr [OF wp] q obtain q' where
      a: "queue s' = Some q'" "tail q' = tail q" "max_entries q' = max_entries q"
        "thread_view s' = thread_view s"
        "if ok then head q < tail q \<and> head q' = head q + 1 else s' = s \<and> tail q \<le> head q"
      by auto
    show "\<exists>q1. queue s1 = Some q1 \<and> head q1 = tail q1 \<and> tail q1 = tail q \<and>
        max_entries q1 = max_entries q \<and> thread_view s1 = thread_view s"
    proof (cases ok)
      case False
      with 1(2) wp r a q le show ?thesis by auto
    next
      case True
      with 1(2) wp have rec: "drain s' = Some r" by simp
      from True a(5) have lt: "head q < tail q" and h: "head q' = head q + 1" by simp_all
      from deq_counters [OF lt, of "unat (tail q - head q)"] have "head q' \<le> tail q'"
        using h a(2) by simp
      from 1(1) [OF rec, rule_format, OF r a(1) this] a show ?thesis by auto
    qed
  qed
qed

lemma wait_empty_Some:
  assumes "wait_empty sched s = Some r"
  shows "idle s \<longrightarrow> (\<forall>q. queue s = Some q \<longrightarrow> rb_empty q)"
proof (rule wait_empty.raw_induct [OF _ assms], goal_cases)
  case (1 wait sched s r)
  show ?case
  proof (intro allI impI)
    fix q
    assume i: "idle s" and q: "queue s = Some q"
    show "rb_empty q"
    proof (rule ccontr)
      assume ne: "\<not> rb_empty q"
      let ?w = "s\<lparr>events := events s @ [Yield]\<rparr>"
      have iw: "idle ?w" using i by (simp add: idle_def)
      from 1(2) q ne meanwhile_idle [OF iw, of sched]
      have "wait (tl sched) ?w = Some r" by simp
      from 1(1) [OF this] iw q have "rb_empty q" by simp
      with ne show False by simp
    qed
  qed
qed

lemma wait_empty_stuck:
  "idle s \<Longrightarrow> (case queue s of None \<Rightarrow> False | Some q \<Rightarrow> \<not> rb_empty q) \<Longrightarrow>
     wait_empty sched s = None"
  using wait_empty_Some [of sched s] by (cases "wait_empty sched s") (auto split: option.splits)

text \<open>With records left in the batch, the destructor of an asynchronous logger does not
  return: the worker has been joined when \<open>flush\<close> pushes them and waits for the queue
  to empty.\<close>

lemma destroy_stuck:
  assumes w: "worker s \<noteq> None" and q: "queue s = Some q" and le: "head q \<le> tail q"
    and c: "0 < count (batch s)" "count (batch s) < 2 ^ 64"
  shows "destroy sched s \<noteq> Some (Inr r)"
proof
  assume d: "destroy sched s = Some (Inr r)"
  let ?s0 = "s\<lparr>running := False, events := events s @ [Notify_all]\<rparr>"
  from d w obtain s1 where j: "join ?s0 = Some (Inr s1)" and f: "flush sched s1 = Some (Inr r)"
    by (auto simp: destroy_def split: option.splits sum.splits)
  from j obtain sd where dr: "drain ?s0 = Some (Inr sd)" and s1: "s1 = sd\<lparr>worker := Some Joined\<rparr>"
    by (auto simp: join_def split: option.splits sum.splits)
  have "queue ?s0 = Some q" using q by simp
  from drain_Some [OF dr, rule_format, OF refl this le] obtain q1 where
    a: "queue sd = Some q1" "head q1 = tail q1" "thread_view sd = thread_view ?s0"
    by auto
  have b1: "batch s1 = batch s" "worker s1 = Some Joined" "queue s1 = Some q1"
    using a s1 by (simp_all add: thread_view_def)
  have i1: "idle s1" using b1 by (simp add: idle_def)
  from f c b1 obtain sched1 s2 where fb: "flush_batch sched s1 = Some (Inr (sched1, s2))"
    and we: "(if worker s2 \<noteq> None then wait_empty sched1 s2 else Some (Inr (sched1, s2))) \<noteq> None"
    by (auto simp: flush_def split: option.splits sum.splits)
  from fb obtain s2' where ff: "flush_from sched 0 s1 = Some (Inr (sched1, s2'))"
    and s2: "s2 = s2'\<lparr>batch := clear (batch s2')\<rparr>"
    by (auto simp: flush_batch_def Let_def clear_def split: option.splits sum.splits if_splits)
  from flush_from_Some [OF ff, rule_format, OF refl _ b1(3)] i1 obtain q2 where
    e: "queue s2' = Some q2" "tail q2 = tail q1 + of_nat (count (batch s1))"
      "worker s2' = worker s1" "running s2' = running s1" "head q2 = head q1"
    by auto
  have i2: "idle s2" using e b1 s2 by (simp add: idle_def)
  have "unat (of_nat (count (batch s)) :: 64 word) = count (batch s)"
    using c(2) by (simp add: unat_of_nat)
  then have "(of_nat (count (batch s)) :: 64 word) \<noteq> 0" using c(1) by auto
  then have ne: "\<not> rb_empty q2"
    using e a(2) b1(1) by (simp add: rb_empty_def rb_size_def)
  have "wait_empty sched1 s2 = None"
    using ne e s2 by (intro wait_empty_stuck [OF i2]) simp
  with we e b1 s2 show False by simp
qed

section \<open>The counters while the logger runs\<close>

lemma worker_poll_ordered:
  assumes "worker_poll s = Some (Inr (ok, s'))" "queue s = Some q" "head q \<le> tail q"
  shows "\<exists>q'. queue s' = Some q' \<and> head q' \<le> tail q'"
proof -
  from worker_poll_Inr [OF assms(1)] assms(2) obtain q' where
    a: "queue s' = Some q'" "tail q' = tail q"
      "if ok then head q < tail q \<and> head q' = head q + 1 else s' = s \<and> tail q \<le> head q"
    by auto
  show ?thesis
  proof (cases ok)
    case True
    with a deq_counters [of "head q" "tail q" "unat (tail q - head q)"] show ?thesis by simp
  next
    case False
    with a assms show ?thesis by simp
  qed
qed

lemma worker_steps_ordered:
  assumes "worker_steps k s = Inr s'" "queue s = Some q" "head q \<le> tail q"
  shows "\<exists>q'. queue s' = Some q' \<and> head q' \<le> tail q'"
  using assms
proof (induction k arbitrary: s q)
  case 0
  then show ?case by simp
next
  case (Suc k)
  show ?case
  proof (cases "worker s = Some Started \<and> running s")
    case False
    with Suc.prems show ?thesis by auto
  next
    case True
    show ?thesis
    proof (cases "worker_poll s")
      case None
      with True Suc.prems show ?thesis by auto
    next
      case (Some r)
      with True Suc.prems obtain ok s1 where r: "worker_poll s = Some (Inr (ok, s1))"
        and k: "worker_steps k s1 = Inr s'"
        by (auto split: sum.splits)
      from worker_poll_ordered [OF r Suc.prems(2,3)] obtain q1 where
        "queue s1 = Some q1" "head q1 \<le> tail q1" by auto
      from Suc.IH [OF k this] show ?thesis .
    qed
  qed
qed

lemma meanwhile_ordered:
  assumes "meanwhile sched s = Inr (sched', s')" "queue s = Some q" "head q \<le> tail q"
  shows "\<exists>q'. queue s' = Some q' \<and> head q' \<le> tail q'"
proof (cases sched)
  case Nil
  with assms show ?thesis by (simp add: meanwhile_def)
next
  case (Cons k rest)
  with assms have "worker_steps k s = Inr s'"
    by (auto simp: meanwhile_def split: sum.splits)
  from worker_steps_ordered [OF this assms(2,3)] show ?thesis .
qed

lemma enqueue_retry_ordered:
  assumes "enqueue_retry sched b data len s = Some r"
  shows "\<forall>sched' s' q0. r = Inr (sched', s') \<longrightarrow> queue s = Some q0 \<longrightarrow> head q0 \<le> tail q0 \<longrightarrow>
     unat (tail q0) + 1 < 2 ^ 64 \<longrightarrow>
     (\<exists>q'. queue s' = Some q' \<and> head q' \<le> tail q' \<and> unat (tail q') = unat (tail q0) + 1)"
proof (rule enqueue_retry.raw_induct [OF _ assms], goal_cases)
  case (1 retry sched b data len s r)
  show ?case
  proof (intro allI impI)
    fix sched' s' q0
    assume r: "r = Inr (sched', s')" and q0: "queue s = Some q0" and le: "head q0 \<le> tail q0"
      and nw: "unat (tail q0) + 1 < 2 ^ 64"
    from 1(2) r q0 obtain ok q1 where e: "try_enqueue q0 data len = Inr (ok, q1)"
      by (auto split: sum.splits)
    show "\<exists>q'. queue s' = Some q' \<and> head q' \<le> tail q' \<and> unat (tail q') = unat (tail q0) + 1"
    proof (cases ok)
      case True
      with 1(2) r q0 e have s': "s' = s\<lparr>queue := Some q1\<rparr>" by simp
      from try_enqueue_Inr [OF e] True have
        t: "tail q1 = tail q0 + 1" "head q1 = head q0" "unat (tail q0 - head q0) < max_entries q0"
        by simp_all
      from enq_counters [OF le order_refl _ t(3)] nw have "head q0 \<le> tail q0 + 1" by simp
      with s' t unat_succ [OF nw] show ?thesis by simp
    next
      case False
      let ?w = "snd (backoff_wait b s)"
      from 1(2) r q0 e False obtain sched1 s1 where
        mw: "meanwhile sched ?w = Inr (sched1, s1)"
        and rec: "retry sched1 (fst (backoff_wait b s)) data len s1 = Some r"
        by (auto split: sum.splits)
      have qw: "queue ?w = Some q0" using q0 by (simp add: backoff_wait_def)
      from meanwhile_Inr [OF mw qw] meanwhile_ordered [OF mw qw le] obtain qa where
        qa: "queue s1 = Some qa" "tail qa = tail q0" "head qa \<le> tail qa"
        by auto
      from 1(1) [OF rec, rule_format, OF r qa(1) qa(3)] nw qa(2) show ?thesis by simp
    qed
  qed
qed

lemma flush_from_ordered:
  assumes "flush_from sched i s = Some r"
  shows "\<forall>sched' s' q0. r = Inr (sched', s') \<longrightarrow> i \<le> count (batch s) \<longrightarrow> queue s = Some q0 \<longrightarrow>
     head q0 \<le> tail q0 \<longrightarrow> unat (tail q0) + (count (batch s) - i) < 2 ^ 64 \<longrightarrow>
     (\<exists>q'. queue s' = Some q' \<and> head q' \<le> tail q' \<and>
        unat (tail q') = unat (tail q0) + (count (batch s) - i))"
proof (rule flush_from.raw_induct [OF _ assms], goal_cases)
  case (1 flush sched i s r)
  show ?case
  proof (intro allI impI)
    fix sched' s' q0
    assume r: "r = Inr (sched', s')" and i: "i \<le> count (batch s)" and q0: "queue s = Some q0"
      and le: "head q0 \<le> tail q0" and nw: "unat (tail q0) + (count (batch s) - i) < 2 ^ 64"
    show "\<exists>q'. queue s' = Some q' \<and> head q' \<le> tail q' \<and>
        unat (tail q') = unat (tail q0) + (count (batch s) - i)"
    proof (cases "i < count (batch s)")
      case False
      with 1(2) r i q0 le show ?thesis by auto
    next
      case True
      from 1(2) r True obtain len sched1 s1 where
        er: "enqueue_retry sched 0 (batch_at (batch s) i) len s = Some (Inr (sched1, s1))"
        and rec: "flush sched1 (i + 1) s1 = Some r"
        by (auto split: sum.splits option.splits)
      have nw1: "unat (tail q0) + 1 < 2 ^ 64" using nw True by simp
      from enqueue_retry_ordered [OF er, rule_format, OF refl q0 le nw1] obtain q1 where
        q1: "queue s1 = Some q1" "head q1 \<le> tail q1" "unat (tail q1) = unat (tail q0) + 1"
        by auto
      from enqueue_retry_Some [OF er, rule_format, of 0 sched1 s1] have b: "batch s1 = batch s"
        by auto
      have i1: "i + 1 \<le> count (batch s1)" using True b by simp
      have nw2: "unat (tail q1) + (count (batch s1) - (i + 1)) < 2 ^ 64"
        using nw True q1(3) b by simp
      from 1(1) [OF rec, rule_format, OF r i1 q1(1) q1(2) nw2] q1(3) b True
      show ?thesis by auto
    qed
  qed
qed

lemma log_inv:
  assumes "logger_inv k s" "k + BATCH_SIZE < 2 ^ 64"
    and "log MinLevel L ns payload sched s = Some (Inr (sched', s'))"
  shows "logger_inv (k + BATCH_SIZE) s'"
proof (cases "level_int MinLevel \<le> level_int L")
  case False
  with assms show ?thesis by (auto simp: log_def logger_inv_def split: option.splits)
next
  case True
  from assms(1) obtain q0 where q0: "queue s = Some q0" and le: "head q0 \<le> tail q0"
    and t: "unat (tail q0) \<le> k" and w: "worker s = Some Started"
    and c: "count (batch s) \<le> BATCH_SIZE"
    by (auto simp: logger_inv_def split: option.splits)
  let ?s1 = "s\<lparr>format_buf := render L ns payload\<rparr>"
  let ?add = "\<lambda>b. try_add b (string_source (render L ns payload)) (length (render L ns payload))"
  from assms(3) True q0 obtain ok b where add: "?add (batch s) = Inr (ok, b)"
    by (cases "?add (batch s)") (auto simp: log_def Let_def)
  show ?thesis
  proof (cases ok)
    case True
    with assms(3) \<open>level_int MinLevel \<le> level_int L\<close> q0 add have "s' = ?s1\<lparr>batch := b\<rparr>"
      by (auto simp: log_def Let_def)
    with try_add_count [OF add] True q0 le t w show ?thesis
      by (auto simp: logger_inv_def)
  next
    case False
    with assms(3) True q0 add obtain sched1 s2 where
      fb: "flush_batch sched ?s1 = Some (Inr (sched1, s2))"
      and rest: "(case ?add (batch s2) of Inl f \<Rightarrow> Some (Inl f)
                  | Inr (ok', b') \<Rightarrow> Some (Inr (sched1, s2\<lparr>batch := b'\<rparr>))) = Some (Inr (sched', s'))"
      by (auto simp: log_def Let_def split: option.splits sum.splits)
    from fb obtain r where ff: "flush_from sched 0 ?s1 = Some (Inr (sched1, r))"
      and s2: "s2 = r\<lparr>batch := clear (batch r)\<rparr>"
      by (auto simp: flush_batch_def Let_def clear_def split: option.splits sum.splits if_splits)
    have q1: "queue ?s1 = Some q0" using q0 by simp
    have nw: "unat (tail q0) + (count (batch ?s1) - 0) < 2 ^ 64" using t c assms(2) by simp
    from flush_from_ordered [OF ff, rule_format, OF refl _ q1 le nw] obtain q' where
      q': "queue r = Some q'" "head q' \<le> tail q'" "unat (tail q') = unat (tail q0) + count (batch s)"
      by auto
    from flush_from_Some [OF ff, rule_format, OF refl _ q1] have wr: "worker r = worker s"
      by auto
    from rest obtain ok' b' where add2: "?add (batch s2) = Inr (ok', b')"
      and s': "s' = s2\<lparr>batch := b'\<rparr>"
      by (auto split: sum.splits)
    from try_add_count [OF add2] s2 have "count b' \<le> BATCH_SIZE"
      by (auto simp: clear_def BATCH_SIZE_def)
    with s' s2 q' wr w t c show ?thesis by (auto simp: logger_inv_def)
  qed
qed

lemma log_all_inv:
  assumes "logger_inv k s" "k + BATCH_SIZE * length recs < 2 ^ 64"
    and "log_all MinLevel L recs sched s = Some (Inr (sched', s'))"
  shows "logger_inv (k + BATCH_SIZE * length recs) s'"
  using assms
proof (induction recs arbitrary: k sched s)
  case Nil
  then show ?case by simp
next
  case (Cons rec recs)
  obtain ns payload where rec: "rec = (ns, payload)" by (cases rec)
  from Cons.prems(3) rec obtain sched1 s1 where
    l: "log MinLevel L ns payload sched s = Some (Inr (sched1, s1))"
    and la: "log_all MinLevel L recs sched1 s1 = Some (Inr (sched', s'))"
    by (auto split: option.splits sum.splits)
  have "logger_inv (k + BATCH_SIZE) s1"
    using log_inv [OF Cons.prems(1) _ l] Cons.prems(2) by simp
  from Cons.IH [OF this _ la] Cons.prems(2) show ?case by (simp add: ac_simps)
qed

lemma log_all_leaves_record:
  assumes "recs \<noteq> []" "level_int MinLevel \<le> level_int L" "queue s \<noteq> None"
    and "log_all MinLevel L recs sched s = Some (Inr (sched', s'))"
  shows "0 < count (batch s')"
  using assms
proof (induction recs arbitrary: sched s)
  case Nil
  then show ?case by simp
next
  case (Cons rec recs)
  obtain ns payload where rec: "rec = (ns, payload)" by (cases rec)
  from Cons.prems(4) rec obtain sched1 s1 where
    l: "log MinLevel L ns payload sched s = Some (Inr (sched1, s1))"
    and la: "log_all MinLevel L recs sched1 s1 = Some (Inr (sched', s'))"
    by (auto split: option.splits sum.splits)
  from log_leaves_record_in_batch [OF Cons.prems(2,3) l] have
    c: "0 < count (batch s1)" "queue s1 \<noteq> None" by simp_all
  show ?case
  proof (cases recs)
    case Nil
    with la c show ?thesis by simp
  next
    case (Cons a list)
    then have "recs \<noteq> []" by simp
    from Cons.IH [OF this Cons.prems(2) c(2) la] show ?thesis .
  qed
qed

text \<open>Scenario S6 for any number of records: after any non-empty sequence of admitted
  \<open>log\<close> calls on a fresh asynchronous logger, with no \<open>flush\<close>, the destructor does not
  return.\<close>

lemma destroy_after_logging_stuck:
  assumes "recs \<noteq> []" "length recs < 2 ^ 58" "level_int MinLevel \<le> level_int L"
    and "log_all MinLevel L recs sched (new_Logger sk True) = Some (Inr (sched', s'))"
  shows "destroy sched'' s' \<noteq> Some (Inr r)"
proof -
  have i0: "logger_inv 0 (new_Logger sk True)"
    by (simp add: logger_inv_def new_Logger_def new_ring_def new_batch_def)
  have b: "0 + BATCH_SIZE * length recs < 2 ^ 64"
    using assms(2) by (simp add: BATCH_SIZE_def)
  from log_all_inv [OF i0 b assms(4)] obtain q where
    q: "queue s' = Some q" "head q \<le> tail q" "worker s' = Some Started"
      "count (batch s') \<le> BATCH_SIZE"
    by (auto simp: logger_inv_def split: option.splits)
  have "queue (new_Logger sk True) \<noteq> None" by (simp add: new_Logger_def)
  from log_all_leaves_record [OF assms(1,3) this assms(4)] have c: "0 < count (batch s')" .
  have "count (batch s') < 2 ^ 64" using q(4) by (simp add: BATCH_SIZE_def)
  from destroy_stuck [OF _ q(1) q(2) c this] q(3) show ?thesis by simp
qed

section \<open>The retry loop on a full queue\<close>










section \<open>Rendering\<close>

text \<open>\<open>dec_nat\<close> writes a number in decimal.\<close>

lemma digit_value: "d < 10 \<Longrightarrow> of_char (digits ! d) = 48 + d"
proof -
  assume "d < 10"
  then have "d \<in> {0, 1, 2, 3, 4, 5, 6, 7, 8, 9}" by auto
  then show ?thesis by (auto simp: digits_def)
qed

lemma dec_nat_decimal: "dec_value (dec_nat n) = n"
proof (induction n rule: dec_nat.induct)
  case (1 n)
  show ?case
  proof (cases "n < 10")
    case True
    then show ?thesis by (simp add: dec_value_def digit_value)
  next
    case False
    have "dec_value (dec_nat (n div 10) @ [digits ! (n mod 10)])
        = 10 * dec_value (dec_nat (n div 10)) + n mod 10"
      by (simp add: dec_value_def digit_value)
    with False 1 show ?thesis by (subst dec_nat.simps) simp
  qed
qed

lemma log_admitted:
  assumes "level_int MinLevel \<le> level_int L"
    and "log MinLevel L ns payload sched s = Some (Inr (sched', s'))"
  shows "format_buf s' = render L ns payload"
proof (cases "queue s")
  case None
  with assms show ?thesis by (auto simp: log_def Let_def)
next
  case (Some q)
  let ?s1 = "s\<lparr>format_buf := render L ns payload\<rparr>"
  let ?add = "\<lambda>b. try_add b (string_source (render L ns payload)) (length (render L ns payload))"
  show ?thesis
  proof (cases "?add (batch s)")
    case (Inl f)
    with assms Some show ?thesis by (simp add: log_def Let_def)
  next
    case (Inr p)
    obtain ok b where p: "p = (ok, b)" by (cases p)
    show ?thesis
    proof (cases ok)
      case True
      with assms Some Inr p show ?thesis by (auto simp: log_def Let_def)
    next
      case False
      with assms Some Inr p obtain sched1 s2 where
        fb: "flush_batch sched ?s1 = Some (Inr (sched1, s2))"
        and "format_buf s' = format_buf s2"
        by (auto simp: log_def Let_def split: option.splits sum.splits)
      moreover have "queue ?s1 = Some q" using Some by simp
      ultimately show ?thesis using flush_batch_Some [OF fb] by simp
    qed
  qed
qed

lemma level_tag:
  "levels ! level_int L =
     (case L of TRACE \<Rightarrow> CHR ''T'' | DEBUG \<Rightarrow> CHR ''D'' | INFO \<Rightarrow> CHR ''I''
      | WARN \<Rightarrow> CHR ''W'' | ERROR \<Rightarrow> CHR ''E'' | CRITICAL \<Rightarrow> CHR ''C'')"
  by (cases L) (simp_all add: levels_def)

section \<open>Records that fit a slot and records that do not\<close>

text \<open>A record whose rendered form has at most 254 bytes, logged to a fresh
  asynchronous logger, flushed and dequeued by the worker, reaches the sink as it was
  rendered.\<close>

lemma render_nonempty: "0 < length (render L ns payload)"
  by (simp add: render_def)

lemma short_record_delivered:
  assumes "level_int MinLevel \<le> level_int L" "length (render L ns payload) \<le> 254"
  shows "\<exists>s1 s2 s3.
     log MinLevel L ns payload [] (new_Logger new_sink True) = Some (Inr ([], s1)) \<and>
     flush_batch [] s1 = Some (Inr ([], s2)) \<and>
     worker_poll s2 = Some (Inr (True, s3)) \<and>
     written (sink s3) = [render L ns payload]"
proof -
  define rec where "rec = render L ns payload"
  have n: "0 < length rec" "length rec \<le> 254"
    using assms(2) render_nonempty [of L ns payload] by (simp_all add: rec_def)
  then have m: "length rec mod 65536 = length rec" "length rec mod 256 = length rec"
    "length rec div 256 = 0" "min (length rec) 254 = length rec"
    by simp_all
  have tr: "of_char (char_of (length rec) :: char) = length rec"
    using n by (simp add: of_char_of)
  have mp: "map (\<lambda>a. if a < length rec then rec ! a else f a) [0..<length rec] = rec" for f
    by (rule nth_equalityI) simp_all
  show ?thesis
    using assms(1) n
    apply (simp add: log_def new_Logger_def new_sink_def new_batch_def try_add_def BATCH_SIZE_def ENTRY_SIZE_def
      batch_at_def clear_def flush_batch_def sink_write_def ring_eval flush_from.simps enqueue_retry.simps
      worker_poll_def rec_def [symmetric] m tr mp)
    apply (rule nth_equalityI)
     apply simp_all
    done
qed

text \<open>A record whose rendered form has 65536 bytes gets the trailer
  \<open>65536 mod 2 ^ 16 = 0\<close> in the batch; \<open>flush_batch\<close> passes the length 0 to
  \<open>try_enqueue\<close>, and the worker's dequeue attempt does not return.\<close>

lemma long_record_zero_trailer:
  "(case log TRACE INFO 5 (replicate 65529 CHR ''x'') [] (new_Logger new_sink True) of
      Some (Inr (sched, s)) \<Rightarrow>
        length (format_buf s) = 65536 \<and>
        (case flush_batch sched s of
           Some (Inr (sched', s')) \<Rightarrow>
             (case queue s' of
                Some q \<Rightarrow>
                  head q = 0 \<and> tail q = 1 \<and>
                  read_trailer (aligned_buffer q) (buffer_size q) (slot_of q (head q)) (entry_size q) = Inr 0
              | None \<Rightarrow> False) \<and>
             worker_poll s' = None
         | _ \<Rightarrow> False)
    | _ \<Rightarrow> False)"
  by (simp add: logger_eval ring_eval flush_from.simps enqueue_retry.simps worker_poll_def
      del: upt_rec_numeral)

section \<open>C1: destruction with records left in the batch\<close>

text \<open>
  Claim C1 at the input of one record logged to a fresh asynchronous logger, no call
  of \<open>flush\<close>, then the destructor: the record is still in the thread-local batch and
  the sink has received nothing when destruction begins, and the destructor does not
  return. It joins the worker first; the \<open>flush\<close> that follows pushes the record into
  the ring buffer and then waits for the queue to become empty, with no worker left to
  empty it. (By \<open>destroy_after_logging_stuck\<close> the same holds after any number of
  records, the 1000 of scenario S6 among them.)
\<close>

theorem destructor_hangs_on_batched_record:
  "(case log TRACE INFO 5 ''x'' [] (new_Logger new_sink True) of
      Some (Inr (sched, s)) \<Rightarrow>
        count (batch s) = 1 \<and> written (sink s) = [] \<and> destroy sched s = None
    | _ \<Rightarrow> False)"
  apply (simp add: logger_eval ring_eval flush_from.simps enqueue_retry.simps destroy_def join_def
      drain.simps worker_poll_def flush_def)
  apply (subst wait_empty_stuck)
    apply (simp_all add: idle_def rb_empty_def rb_size_def)
  done

section \<open>C2: a record longer than a slot\<close>

text \<open>
  Claim C2 at the input of one record whose rendered form has 400 bytes, logged to a
  fresh asynchronous logger and flushed: the batch slot is given the trailer 400, not
  254; \<open>flush_batch\<close> passes the length 400 to \<open>try_enqueue\<close>, so the slot of the ring
  buffer has the trailer 400 as well; a \<open>try_dequeue\<close> into a large enough buffer
  hands out 400 bytes, and the worker's \<open>try_dequeue\<close> into \<open>char entry[256]\<close> writes
  beyond that array.
\<close>

theorem oversize_record_not_truncated:
  "(case log TRACE INFO 5 (replicate 393 CHR ''x'') [] (new_Logger new_sink True) of
      Some (Inr (sched, s)) \<Rightarrow>
        length (format_buf s) = 400 \<and>
        read_trailer (batch_arr (batch s)) 8192 0 256 = Inr 400 \<and>
        (case flush_batch sched s of
           Some (Inr (sched', s')) \<Rightarrow>
             (case queue s' of
                Some q \<Rightarrow>
                  read_trailer (aligned_buffer q) (buffer_size q) 0 256 = Inr 400 \<and>
                  (case try_dequeue q 65535 of
                     Some (Inr (ok, entry, q')) \<Rightarrow> ok \<and> length entry = 400
                   | _ \<Rightarrow> False)
              | None \<Rightarrow> False) \<and>
             worker_poll s' = Some (Inl WriteOverrun)
         | _ \<Rightarrow> False)
    | _ \<Rightarrow> False)"
  by (simp add: logger_eval ring_eval flush_from.simps enqueue_retry.simps worker_poll_def
      del: upt_rec_numeral)

section \<open>C3: when try_dequeue returns false\<close>

text \<open>
  Claim C3, as stated, fails. After the reservation step of \<open>try_enqueue\<close> on a fresh
  queue (index 0 reserved, nothing written yet) the oldest reserved slot is not yet
  published, and \<open>try_dequeue\<close> does not return false: it does not return at all, it
  waits for the trailer.
\<close>

theorem try_dequeue_unpublished_counterexample:
  "reserve (new_ring 256 65536) = Some (0, (new_ring 256 65536)\<lparr>tail := 1\<rparr>) \<and>
   head ((new_ring 256 65536)\<lparr>tail := 1\<rparr>) < tail ((new_ring 256 65536)\<lparr>tail := 1\<rparr>) \<and>
   read_trailer (aligned_buffer ((new_ring 256 65536)\<lparr>tail := 1\<rparr>))
      (buffer_size ((new_ring 256 65536)\<lparr>tail := 1\<rparr>))
      (slot_of ((new_ring 256 65536)\<lparr>tail := 1\<rparr>) (head ((new_ring 256 65536)\<lparr>tail := 1\<rparr>)))
      (entry_size ((new_ring 256 65536)\<lparr>tail := 1\<rparr>)) = Inr 0 \<and>
   try_dequeue ((new_ring 256 65536)\<lparr>tail := 1\<rparr>) 256 = None"
  by (simp add: ring_eval)

text \<open>
  Claim C3, amended. \<open>try_dequeue\<close> returns false exactly when the queue is empty
  (\<open>head \<ge> tail\<close>), and then it copies nothing and leaves the queue, \<open>head\<close> included,
  as it is. When the queue is not empty and the trailer of the oldest reserved slot is
  zero, it does not return false: it waits for the trailer to become nonzero, which
  with no producer running is for ever.
\<close>

theorem try_dequeue_false_iff_empty:
  "((\<exists>entry q'. try_dequeue q cap = Some (Inr (False, entry, q'))) \<longleftrightarrow> tail q \<le> head q) \<and>
   (tail q \<le> head q \<longrightarrow> try_dequeue q cap = Some (Inr (False, [], q))) \<and>
   (head q < tail q \<and>
    read_trailer (aligned_buffer q) (buffer_size q) (slot_of q (head q)) (entry_size q) = Inr 0
      \<longrightarrow> try_dequeue q cap = None)"
proof -
  have 1: "try_dequeue q cap = Some (Inr (False, [], q))" if "tail q \<le> head q"
    using that by (simp add: try_dequeue_def)
  have 2: "tail q \<le> head q" if "try_dequeue q cap = Some (Inr (False, entry, q'))" for entry q'
    using try_dequeue_Inr [OF that] by simp
  have 3: "try_dequeue q cap = None"
    if "head q < tail q"
      "read_trailer (aligned_buffer q) (buffer_size q) (slot_of q (head q)) (entry_size q) = Inr 0"
    using that by (simp add: try_dequeue_def await_trailer_eq Let_def)
  show ?thesis using 1 2 3 by blast
qed

theorem try_dequeue_false_iff_empty_witness:
  "try_dequeue (new_ring 256 65536) 256 = Some (Inr (False, [], new_ring 256 65536)) \<and>
   try_dequeue ((new_ring 256 65536)\<lparr>tail := 1\<rparr>) 256 = None"
proof -
  have a: "tail (new_ring 256 65536) \<le> head (new_ring 256 65536)"
    by (simp add: new_ring_def)
  have b: "head ((new_ring 256 65536)\<lparr>tail := 1\<rparr>) < tail ((new_ring 256 65536)\<lparr>tail := 1\<rparr>) \<and>
    read_trailer (aligned_buffer ((new_ring 256 65536)\<lparr>tail := 1\<rparr>))
      (buffer_size ((new_ring 256 65536)\<lparr>tail := 1\<rparr>))
      (slot_of ((new_ring 256 65536)\<lparr>tail := 1\<rparr>) (head ((new_ring 256 65536)\<lparr>tail := 1\<rparr>)))
      (entry_size ((new_ring 256 65536)\<lparr>tail := 1\<rparr>)) = Inr 0"
    by (simp add: ring_eval)
  show ?thesis
    using a b try_dequeue_false_iff_empty [of "new_ring 256 65536" 256]
      try_dequeue_false_iff_empty [of "(new_ring 256 65536)\<lparr>tail := 1\<rparr>" 256]
    by blast
qed

section \<open>C4: the notification after a batch flush\<close>

text \<open>
  Claim C4 at the input of one record logged to a fresh asynchronous logger and then
  \<open>flush_batch\<close>: the record is pushed into the ring buffer (\<open>tail = 1\<close>), the batch is
  cleared, and no notification of the condition variable has been issued: the test
  \<open>batch_.size() > 0\<close> comes after \<open>batch_.clear()\<close>. (By \<open>flush_batch_Some\<close> no
  returning \<open>flush_batch\<close> adds a notification.)
\<close>

theorem flush_batch_never_notifies:
  "(case log TRACE INFO 5 ''x'' [] (new_Logger new_sink True) of
      Some (Inr (sched, s)) \<Rightarrow>
        count (batch s) = 1 \<and>
        (case flush_batch sched s of
           Some (Inr (sched', s')) \<Rightarrow>
             (case queue s' of Some q \<Rightarrow> tail q = 1 | None \<Rightarrow> False) \<and>
             count (batch s') = 0 \<and> Notify_one \<notin> set (events s')
         | _ \<Rightarrow> False)
    | _ \<Rightarrow> False)"
  by (simp add: logger_eval ring_eval flush_from.simps enqueue_retry.simps)

section \<open>C5: the counters of the ring buffer\<close>

text \<open>
  Claim C5. After any sequence of returning \<open>try_enqueue\<close> and \<open>try_dequeue\<close> calls on
  a fresh ring buffer of \<open>n\<close> slots, \<open>tail - head\<close> as the code computes it (\<open>size()\<close>,
  a 64-bit difference) is at most \<open>n\<close>, and on a queue holding \<open>n\<close> records
  \<open>try_enqueue\<close> returns false and leaves the queue as it is. The counters are 64-bit
  words: for sequences of fewer than \<open>2 ^ 64 - 1\<close> calls, before \<open>tail\<close> can wrap
  around, moreover \<open>head \<le> tail\<close>, the difference of the counters as numbers is at
  most \<open>n\<close>, and the next call decreases neither counter and keeps these bounds.
\<close>

theorem ring_counters_bounded:
  assumes "rb_run (new_ring es n) cs = Some q"
  shows "unat (rb_size q) \<le> n \<and>
         (\<forall>data len. n \<le> unat (rb_size q) \<longrightarrow> try_enqueue q data len = Inr (False, q)) \<and>
         (length cs < 2 ^ 64 - 1 \<longrightarrow>
            head q \<le> tail q \<and> unat (tail q) - unat (head q) \<le> n \<and>
            (\<forall>c q'. rb_step q c = Some q' \<longrightarrow>
               head q \<le> head q' \<and> tail q \<le> tail q' \<and>
               head q' \<le> tail q' \<and> unat (tail q') - unat (head q') \<le> n))"
proof -
  have "max_entries (new_ring es n) = n \<and> unat (tail (new_ring es n) - head (new_ring es n)) \<le> n"
    by (simp add: new_ring_def)
  from ring_size_run [OF this assms] have n: "max_entries q = n" and b: "unat (rb_size q) \<le> n"
    by (simp_all add: rb_size_def)
  have full: "try_enqueue q data len = Inr (False, q)" if "n \<le> unat (rb_size q)" for data len
    using that n by (intro try_enqueue_full) (simp add: rb_size_def)
  have mono: "head q \<le> tail q \<and> unat (tail q) - unat (head q) \<le> n \<and>
            (\<forall>c q'. rb_step q c = Some q' \<longrightarrow>
               head q \<le> head q' \<and> tail q \<le> tail q' \<and>
               head q' \<le> tail q' \<and> unat (tail q') - unat (head q') \<le> n)"
    if len: "length cs < 2 ^ 64 - 1"
  proof -
    have inv: "ring_inv n (length cs) q"
      using ring_inv_run [OF ring_inv_new _ assms] len by simp
    then have le: "head q \<le> tail q" by (simp add: ring_inv_def)
    have d: "unat (tail q - head q) = unat (tail q) - unat (head q)"
      using le by (rule unat_diff)
    have step: "head q \<le> head q' \<and> tail q \<le> tail q' \<and>
            head q' \<le> tail q' \<and> unat (tail q') - unat (head q') \<le> n"
      if "rb_step q c = Some q'" for c q'
    proof -
      have i: "ring_inv n (Suc (length cs)) q' \<and> head q \<le> head q' \<and> tail q \<le> tail q'"
        using ring_inv_step [OF inv _ that] len by simp
      then have "head q' \<le> tail q'" "unat (tail q' - head q') \<le> n"
        by (simp_all add: ring_inv_def)
      then show ?thesis using i unat_diff [of "head q'" "tail q'"] by simp
    qed
    show ?thesis using le b d step by (simp add: rb_size_def)
  qed
  show ?thesis using b full mono by blast
qed

theorem ring_counters_bounded_witness:
  "rb_run (new_ring 256 65536) [Enqueue (string_source ''ab'') 2, Enqueue (string_source ''c'') 1, Dequeue 256] \<noteq> None \<and>
   (let q = the (rb_run (new_ring 256 65536) [Enqueue (string_source ''ab'') 2, Enqueue (string_source ''c'') 1, Dequeue 256])
    in head q = 1 \<and> tail q = 2 \<and> unat (rb_size q) \<le> 65536 \<and>
       head q \<le> tail q \<and> unat (tail q) - unat (head q) \<le> 65536)"
proof -
  let ?cs = "[Enqueue (string_source ''ab'') 2, Enqueue (string_source ''c'') 1, Dequeue 256]"
  have r: "rb_run (new_ring 256 65536) ?cs \<noteq> None"
    by (simp add: ring_eval)
  then have s: "rb_run (new_ring 256 65536) ?cs = Some (the (rb_run (new_ring 256 65536) ?cs))"
    by simp
  have h: "head (the (rb_run (new_ring 256 65536) ?cs)) = 1" "tail (the (rb_run (new_ring 256 65536) ?cs)) = 2"
    by (simp_all add: ring_eval)
  have l: "length ?cs < 2 ^ 64 - 1" by simp
  show ?thesis using r h l ring_counters_bounded [OF s] by (simp add: Let_def)
qed

section \<open>C6: the trailer of a published record\<close>

text \<open>
  Claim C6, as stated, fails. With \<open>len = 0\<close> on a fresh queue, \<open>try_enqueue\<close> accepts the
  record and advances \<open>tail\<close>, so slot 0 holds a fully published record that has not
  been consumed, but its trailer is zero, and \<open>try_dequeue\<close> then waits for ever. With
  \<open>len = 512\<close> \<open>try_enqueue\<close> accepts the record too, and the copy runs over slot 1,
  whose trailer is then nonzero although slot 1 holds no record. And with
  \<open>entry_size = 2 ^ 33\<close> and \<open>max_entries = 2 ^ 31\<close> the product that the constructor
  computes wraps to 0: the constructor returns, the queue is empty, and no slot lies in
  the array, so the trailer of slot 0 is not there to be read as zero.
\<close>

theorem trailer_discipline_counterexample:
  "\<not> isl (try_enqueue (new_ring 256 65536) (string_source []) 0) \<and>
   fst (projr (try_enqueue (new_ring 256 65536) (string_source []) 0)) \<and>
   holds_record (snd (projr (try_enqueue (new_ring 256 65536) (string_source []) 0))) 0 \<and>
   trailer_of (snd (projr (try_enqueue (new_ring 256 65536) (string_source []) 0))) 0 = Inr 0 \<and>
   try_dequeue (snd (projr (try_enqueue (new_ring 256 65536) (string_source []) 0))) 256 = None \<and>
   \<not> isl (try_enqueue (new_ring 256 65536) (string_source (replicate 512 CHR ''x'')) 512) \<and>
   fst (projr (try_enqueue (new_ring 256 65536) (string_source (replicate 512 CHR ''x'')) 512)) \<and>
   \<not> holds_record (snd (projr (try_enqueue (new_ring 256 65536) (string_source (replicate 512 CHR ''x'')) 512))) 1 \<and>
   trailer_of (snd (projr (try_enqueue (new_ring 256 65536) (string_source (replicate 512 CHR ''x'')) 512))) 1 = Inr 30840 \<and>
   construct_ring 8589934592 2147483648 = Inr (new_ring 8589934592 2147483648) \<and>
   rb_empty (new_ring 8589934592 2147483648) \<and>
   \<not> holds_record (new_ring 8589934592 2147483648) 0 \<and>
   trailer_of (new_ring 8589934592 2147483648) 0 = Inl ReadOverrun"
  by (simp add: ring_eval trailer_of_def holds_record_def construct_ring_def rb_empty_def rb_size_def)

text \<open>
  Claim C6, amended. After any sequence of fewer than \<open>2 ^ 64 - 1\<close> returning
  \<open>try_enqueue\<close> and \<open>try_dequeue\<close> calls on a fresh ring buffer whose size
  \<open>entry_size * max_entries\<close> is less than \<open>2 ^ 64\<close>, where every payload length is at
  most \<open>entry_size - 2\<close> and has low 16 bits that are not all zero, the trailer of a slot
  is nonzero if and only if the slot holds a published record that has not been
  consumed; so when the queue is empty every trailer is zero.
\<close>

theorem trailer_nonzero_iff_holds_record:
  assumes "2 \<le> es" and "rb_run (new_ring es n) cs = Some q" and "list_all (fitting es) cs"
    and "length cs < 2 ^ 64 - 1" and "es * n < 2 ^ 64"
  shows "(\<forall>j < n. (trailer_of q j \<noteq> Inr 0) = holds_record q j) \<and>
         (head q = tail q \<longrightarrow> (\<forall>j < n. trailer_of q j = Inr 0))"
proof -
  have "max_entries q = n"
    using ring_inv_run [OF ring_inv_new _ assms(2)] assms(4) by (simp add: ring_inv_def)
  then show ?thesis using trailer_discipline [OF assms] by (simp add: trailer_inv_def)
qed

theorem trailer_nonzero_iff_holds_record_witness:
  "(256 :: nat) * 65536 < 2 ^ 64 \<and>
   rb_run (new_ring 256 65536) [Enqueue (string_source ''ab'') 2, Enqueue (string_source ''c'') 1, Dequeue 256] \<noteq> None \<and>
   list_all (fitting 256) [Enqueue (string_source ''ab'') 2, Enqueue (string_source ''c'') 1, Dequeue 256] \<and>
   (let q = the (rb_run (new_ring 256 65536) [Enqueue (string_source ''ab'') 2, Enqueue (string_source ''c'') 1, Dequeue 256])
    in (trailer_of q 0 \<noteq> Inr 0) = holds_record q 0 \<and> (trailer_of q 1 \<noteq> Inr 0) = holds_record q 1 \<and>
       trailer_of q 0 = Inr 0 \<and> trailer_of q 1 = Inr 1)"
proof -
  let ?cs = "[Enqueue (string_source ''ab'') 2, Enqueue (string_source ''c'') 1, Dequeue 256]"
  define q where "q = the (rb_run (new_ring 256 65536) ?cs)"
  have r: "rb_run (new_ring 256 65536) ?cs \<noteq> None"
    by (simp add: ring_eval)
  then have s: "rb_run (new_ring 256 65536) ?cs = Some q"
    by (simp add: q_def)
  have f: "list_all (fitting 256) ?cs" by simp
  have l: "length ?cs < 2 ^ 64 - 1" by simp
  have e: "(2 :: nat) \<le> 256" by simp
  have w: "(256 :: nat) * 65536 < 2 ^ 64" by simp
  have t: "trailer_of q 0 = Inr 0" "trailer_of q 1 = Inr 1"
    by (simp_all add: q_def ring_eval trailer_of_def)
  from trailer_nonzero_iff_holds_record [OF e s f l w]
  have "\<forall>j < 65536. (trailer_of q j \<noteq> Inr 0) = holds_record q j" by (rule conjunct1)
  then have "(trailer_of q 0 \<noteq> Inr 0) = holds_record q 0" "(trailer_of q 1 \<noteq> Inr 0) = holds_record q 1"
    by simp_all
  with r f t w show ?thesis
    unfolding Let_def q_def by blast
qed

section \<open>C7: records below the minimum level\<close>

text \<open>
  Claim C7. A call \<open>log<L>\<close> with \<open>L\<close> below \<open>MinLevel\<close> returns at once and leaves the
  whole state as it is: the sink, the scratch buffer, the batch, the ring buffer and
  everything else.
\<close>

theorem log_below_min_level_discarded:
  "level_int L < level_int MinLevel \<Longrightarrow> log MinLevel L ns payload sched s = Some (Inr (sched, s))"
  by (simp add: log_def)

theorem log_below_min_level_discarded_witness:
  "level_int TRACE < level_int INFO \<and>
   log INFO TRACE 5 ''x'' [] (new_Logger new_sink True) = Some (Inr ([], new_Logger new_sink True))"
  using log_below_min_level_discarded [of TRACE INFO 5 "''x''" "[]" "new_Logger new_sink True"]
  by simp

section \<open>C8: backoff on a full queue\<close>



section \<open>C9: the rendered record\<close>

text \<open>
  Claim C9. For a level that is admitted, every returning call of \<open>log\<close> leaves in the
  scratch buffer exactly: the seconds in decimal, a dot, the nanoseconds in decimal, a
  space, the tag of the level (T, D, I, W, E, C for TRACE to CRITICAL), a space, the
  payload and a newline; in synchronous mode the call returns and that byte run is
  what the sink is given.
\<close>

theorem log_renders_record:
  assumes "level_int MinLevel \<le> level_int L"
  shows "(\<forall>sched' s'. log MinLevel L ns payload sched s = Some (Inr (sched', s')) \<longrightarrow>
            format_buf s' =
              fmt_int (cdiv ns 1000000000) @ ''.'' @ fmt_int (cmod ns 1000000000) @ '' '' @
              [case L of TRACE \<Rightarrow> CHR ''T'' | DEBUG \<Rightarrow> CHR ''D'' | INFO \<Rightarrow> CHR ''I''
                 | WARN \<Rightarrow> CHR ''W'' | ERROR \<Rightarrow> CHR ''E'' | CRITICAL \<Rightarrow> CHR ''C''] @
              '' '' @ payload @ [CHR 0x0A]) \<and>
         (queue s = None \<longrightarrow>
            (\<exists>s'. log MinLevel L ns payload sched s = Some (Inr (sched, s')) \<and>
               written (sink s') = written (sink s) @
                 [fmt_int (cdiv ns 1000000000) @ ''.'' @ fmt_int (cmod ns 1000000000) @ '' '' @
                  [case L of TRACE \<Rightarrow> CHR ''T'' | DEBUG \<Rightarrow> CHR ''D'' | INFO \<Rightarrow> CHR ''I''
                     | WARN \<Rightarrow> CHR ''W'' | ERROR \<Rightarrow> CHR ''E'' | CRITICAL \<Rightarrow> CHR ''C''] @
                  '' '' @ payload @ [CHR 0x0A]]))"
proof -
  let ?rec = "fmt_int (cdiv ns 1000000000) @ ''.'' @ fmt_int (cmod ns 1000000000) @ '' '' @
              [case L of TRACE \<Rightarrow> CHR ''T'' | DEBUG \<Rightarrow> CHR ''D'' | INFO \<Rightarrow> CHR ''I''
                 | WARN \<Rightarrow> CHR ''W'' | ERROR \<Rightarrow> CHR ''E'' | CRITICAL \<Rightarrow> CHR ''C''] @
              '' '' @ payload @ [CHR 0x0A]"
  have rn: "render L ns payload = ?rec"
    by (simp add: render_def level_tag)
  have 1: "format_buf s' = ?rec" if "log MinLevel L ns payload sched s = Some (Inr (sched', s'))"
    for sched' s'
    using log_admitted [OF assms that] rn by simp
  have 2: "\<exists>s'. log MinLevel L ns payload sched s = Some (Inr (sched, s')) \<and>
               written (sink s') = written (sink s) @ [?rec]" if "queue s = None"
    using that assms by (simp add: log_def rn sink_write_def)
  show ?thesis using 1 2 by blast
qed

theorem log_renders_record_witness:
  "level_int INFO \<le> level_int WARN \<and>
   (\<exists>s'. log INFO WARN 12000000345 ''b'' [] (new_Logger new_sink False) = Some (Inr ([], s')) \<and>
      format_buf s' = ''12.345 W b'' @ [CHR 0x0A] \<and>
      written (sink s') = [''12.345 W b'' @ [CHR 0x0A]])"
proof -
  have a: "level_int INFO \<le> level_int WARN" by simp
  have q: "queue (new_Logger new_sink False) = None" by (simp add: new_Logger_def)
  have e: "fmt_int (cdiv 12000000345 1000000000) @ ''.'' @ fmt_int (cmod 12000000345 1000000000) @ '' '' @
              [case WARN of TRACE \<Rightarrow> CHR ''T'' | DEBUG \<Rightarrow> CHR ''D'' | INFO \<Rightarrow> CHR ''I''
                 | WARN \<Rightarrow> CHR ''W'' | ERROR \<Rightarrow> CHR ''E'' | CRITICAL \<Rightarrow> CHR ''C''] @
              '' '' @ ''b'' @ [CHR 0x0A] = ''12.345 W b'' @ [CHR 0x0A]"
    by (simp add: fmt_int_def cdiv_def cmod_def digits_def)
  have w: "written (sink (new_Logger new_sink False)) = []"
    by (simp add: new_Logger_def new_sink_def)
  from log_renders_record [OF a, of 12000000345 "''b''" "[]" "new_Logger new_sink False"] q
  show ?thesis unfolding e w using a by auto
qed

section \<open>C10: the slot write of try_enqueue\<close>




end
